theory Spec2Isabelle
  imports Main
begin

section \<open>Variant selector\<close>

text \<open>
  A stream descriptor as the metadata document delivers it. Every field may be absent
  (\<open>None\<close> stands for \<^verbatim>\<open>undefined\<close> and \<^verbatim>\<open>null\<close>). The numeric fields are JSON
  integers.
\<close>

record stream =
  container :: "string option"
  mimeType :: "string option"
  quality :: "int option"
  bitrate :: "int option"
  url :: "string option"







text \<open>
  \<^verbatim>\<open>Array.prototype.sort\<close> with a comparator: the sort is stable, and \<open>a\<close> stays in
  front of \<open>b\<close> unless the comparator is positive on \<open>(a, b)\<close>. For a comparator that
  is a difference of keys, as both comparators below are, every stable sort produces
  the list computed here.
\<close>

fun js_insert :: "('a \<Rightarrow> 'a \<Rightarrow> int) \<Rightarrow> 'a \<Rightarrow> 'a list \<Rightarrow> 'a list" where
  "js_insert cmp x [] = [x]"
| "js_insert cmp x (y # ys) = (if cmp x y \<le> 0 then x # y # ys else y # js_insert cmp x ys)"


text \<open>\<^verbatim>\<open>xs[0] || null\<close> on a list of objects: objects are truthy, so only the empty list gives \<^verbatim>\<open>null\<close>.\<close>

definition first_or_null :: "'a list \<Rightarrow> 'a option" where
  "first_or_null xs = (case xs of [] \<Rightarrow> None | x # _ \<Rightarrow> Some x)"


subsection \<open>Case-insensitive pattern characters\<close>

text \<open>
  Under the \<^verbatim>\<open>i\<close> flag a pattern character and a text character match when their
  canonical (upper-case) forms agree. All pattern characters of this program are ASCII,
  and a character outside ASCII never canonicalises to an ASCII one, so folding the
  ASCII letters is all that matters.
\<close>

definition canon :: "char \<Rightarrow> char" where
  "canon c = (let n = (of_char c :: nat) in if 97 \<le> n \<and> n \<le> 122 then char_of (n - 32) else c)"

definition ci_eq :: "char \<Rightarrow> char \<Rightarrow> bool" where
  "ci_eq p c \<longleftrightarrow> canon p = canon c"

text \<open>\<open>ci_prefix p s\<close>: the literal \<open>p\<close> matches at the start of \<open>s\<close>; the rest of \<open>s\<close> is returned.\<close>

fun ci_prefix :: "string \<Rightarrow> string \<Rightarrow> string option" where
  "ci_prefix [] s = Some s"
| "ci_prefix (p # ps) [] = None"
| "ci_prefix (p # ps) (c # cs) = (if ci_eq p c then ci_prefix ps cs else None)"








subsection \<open>The earlier copy of the selector\<close>

text \<open>
  The repository holds a second, earlier copy of the script. Its \<^verbatim>\<open>pickBestAudio\<close> differs
  from the one above only in spreading its argument unguarded, and its \<^verbatim>\<open>pickBestMp4\<close>
  in calling \<^verbatim>\<open>filter\<close> on its argument unguarded and in comparing the qualities
  without \<^verbatim>\<open>parseInt\<close>. An absent argument makes both throw.
\<close>

datatype exn = TypeError











section \<open>Endpoint rotation and failover fetch\<close>

definition PIPED_APIS :: "string list" where
  "PIPED_APIS =
     [''https://pipedapi.kavin.rocks'',
      ''https://pipedapi.adminforge.de'',
      ''https://pipedapi.syncpundit.io'',
      ''https://pipedapi.nosebs.de'',
      ''https://pipedapi.tokhmi.xyz'']"

text \<open>
  The two module variables \<^verbatim>\<open>currentAPIIndex\<close> and \<^verbatim>\<open>lastHealthyAPI\<close>, and with
  them the history of the requests handed to \<^verbatim>\<open>fetch\<close> so far (oldest first). The
  history is not a variable of the program; it records what the program has sent.
\<close>

datatype verb = GET | HEAD

record state =
  currentAPIIndex :: int
  lastHealthyAPI :: "string option"
  sent :: "(verb \<times> string) list"

definition initial :: state where
  "initial = \<lparr>currentAPIIndex = 0, lastHealthyAPI = None, sent = []\<rparr>"

text \<open>
  What a \<^verbatim>\<open>fetch\<close> promise settles to: a rejection (no response at all), or a response
  with its status and its body, \<open>None\<close> when the body is not JSON. The network is a
  parameter: \<open>net n m u\<close> is the outcome of the request with verb \<open>m\<close> for \<open>u\<close> when
  \<open>n\<close> requests were sent before it, so that the same mirror may answer differently
  from one request to the next.
\<close>

datatype 'd outcome = Rejected | Response nat "'d option"

type_synonym 'd net = "nat \<Rightarrow> verb \<Rightarrow> string \<Rightarrow> 'd outcome"

datatype error = AllOffline | ApiError nat | FetchRejected | BodyNotJSON

text \<open>\<^verbatim>\<open>r.ok\<close>: the status is in the range 200 to 299.\<close>

definition ok :: "nat \<Rightarrow> bool" where
  "ok st \<longleftrightarrow> 200 \<le> st \<and> st \<le> 299"

text \<open>
  The remainder operator \<^verbatim>\<open>%\<close> on integers takes the sign of the dividend. The divisor
  is the length of the mirror list and never 0 here.
\<close>

definition js_rem :: "int \<Rightarrow> int \<Rightarrow> int" where
  "js_rem a b = sgn a * (\<bar>a\<bar> mod \<bar>b\<bar>)"

text \<open>\<^verbatim>\<open>xs[k]\<close> is \<^verbatim>\<open>undefined\<close> outside the list.\<close>

definition js_index :: "'a list \<Rightarrow> int \<Rightarrow> 'a option" where
  "js_index xs k = (if 0 \<le> k \<and> k < int (length xs) then Some (xs ! nat k) else None)"

text \<open>\<^verbatim>\<open>xs.indexOf(x)\<close>: the first position of \<open>x\<close>, or \<open>-1\<close>.\<close>

fun indexOf :: "'a list \<Rightarrow> 'a \<Rightarrow> int" where
  "indexOf [] x = - 1"
| "indexOf (y # ys) x =
     (if y = x then 0 else (let r = indexOf ys x in if r < 0 then - 1 else r + 1))"

text \<open>A string or \<^verbatim>\<open>null\<close>/\<^verbatim>\<open>undefined\<close> is truthy when it is a non-empty string.\<close>

definition truthy :: "string option \<Rightarrow> bool" where
  "truthy v = (case v of None \<Rightarrow> False | Some b \<Rightarrow> b \<noteq> [])"

text \<open>\<^verbatim>\<open>base + endpoint\<close>, where an undefined \<open>base\<close> is converted to the text \<^verbatim>\<open>undefined\<close>.\<close>

definition concat_url :: "string option \<Rightarrow> string \<Rightarrow> string" where
  "concat_url base endpoint = (case base of None \<Rightarrow> ''undefined'' | Some b \<Rightarrow> b) @ endpoint"

subsection \<open>The health cache\<close>

text \<open>
  The cache has no functions of its own in the program: it is read by the test
  \<^verbatim>\<open>if (lastHealthyAPI) return lastHealthyAPI\<close> of \<^verbatim>\<open>chooseAPI\<close>, written by the two
  assignments at the end of \<^verbatim>\<open>chooseAPI\<close>, and reset by the two assignments at the
  start of the \<^verbatim>\<open>catch\<close> block of \<^verbatim>\<open>apiFetchJSON\<close>. The three definitions name these
  fragments.
\<close>

definition getCachedHealthy :: "state \<Rightarrow> string option" where
  "getCachedHealthy s = (if truthy (lastHealthyAPI s) then lastHealthyAPI s else None)"

definition markHealthy :: "string \<Rightarrow> state \<Rightarrow> state" where
  "markHealthy healthy s =
     s\<lparr>lastHealthyAPI := Some healthy, currentAPIIndex := indexOf PIPED_APIS healthy\<rparr>"

definition markUnhealthy :: "state \<Rightarrow> state" where
  "markUnhealthy s =
     s\<lparr>lastHealthyAPI := None,
       currentAPIIndex := js_rem (currentAPIIndex s + 1) (int (length PIPED_APIS))\<rparr>"

subsection \<open>\<^verbatim>\<open>chooseAPI\<close>\<close>

text \<open>
  The loop builds one promise per position \<open>i\<close> of the mirror list, for the mirror at
  \<open>(currentAPIIndex + i) % length\<close>. The \<open>i\<close>-th request is sent as the \<open>i\<close>-th of the
  round. Each promise settles to its mirror when the response is ok or has status 404,
  and to \<^verbatim>\<open>null\<close> otherwise, also when the request is rejected. \<^verbatim>\<open>Promise.all\<close> delivers
  the settled values in the order of the promises, whatever the order in which they
  settled.
\<close>

definition bases :: "int \<Rightarrow> string option list" where
  "bases cur =
     map (\<lambda>i. js_index PIPED_APIS (js_rem (cur + int i) (int (length PIPED_APIS))))
       [0 ..< length PIPED_APIS]"

definition probe_value :: "'d outcome \<Rightarrow> string option \<Rightarrow> string option" where
  "probe_value out base =
     (case out of
        Rejected \<Rightarrow> None
      | Response st body \<Rightarrow> (if ok st \<or> st = 404 then base else None))"

definition attempts :: "'d net \<Rightarrow> string \<Rightarrow> state \<Rightarrow> string option list" where
  "attempts net endpoint s =
     map (\<lambda>(i, base). probe_value (net (length (sent s) + i) HEAD (concat_url base endpoint)) base)
       (enumerate 0 (bases (currentAPIIndex s)))"

definition probes_sent :: "string \<Rightarrow> state \<Rightarrow> (verb \<times> string) list" where
  "probes_sent endpoint s = map (\<lambda>base. (HEAD, concat_url base endpoint)) (bases (currentAPIIndex s))"

text \<open>The parameter \<^verbatim>\<open>endpoint = "/api/v1/trending"\<close>: the default replaces an absent argument.\<close>

definition default_endpoint :: string where
  "default_endpoint = ''/api/v1/trending''"

definition endpoint_or_default :: "string option \<Rightarrow> string" where
  "endpoint_or_default a = (case a of None \<Rightarrow> default_endpoint | Some e \<Rightarrow> e)"

definition chooseAPI :: "'d net \<Rightarrow> string option \<Rightarrow> state \<Rightarrow> (error + string) \<times> state" where
  "chooseAPI net endpoint_arg s =
     (let endpoint = endpoint_or_default endpoint_arg in
      case getCachedHealthy s of
        Some cached \<Rightarrow> (Inr cached, s)
      | None \<Rightarrow>
          (let results = attempts net endpoint s;
               s1 = s\<lparr>sent := sent s @ probes_sent endpoint s\<rparr>
           in case find truthy results of
                None \<Rightarrow> (Inl AllOffline, s1)
              | Some None \<Rightarrow> (Inl AllOffline, s1)
              | Some (Some healthy) \<Rightarrow> (Inr healthy, markHealthy healthy s1)))"

subsection \<open>\<^verbatim>\<open>apiFetchJSON\<close>\<close>

text \<open>
  The three statements that follow \<^verbatim>\<open>chooseAPI\<close> in the \<^verbatim>\<open>try\<close> block and again in
  the \<^verbatim>\<open>catch\<close> block: send the request, throw on a status that is not ok, read the
  body as JSON.
\<close>

definition fetch_json :: "'d net \<Rightarrow> string \<Rightarrow> state \<Rightarrow> (error + 'd) \<times> state" where
  "fetch_json net u s =
     (let s1 = s\<lparr>sent := sent s @ [(GET, u)]\<rparr> in
      case net (length (sent s)) GET u of
        Rejected \<Rightarrow> (Inl FetchRejected, s1)
      | Response st body \<Rightarrow>
          (if \<not> ok st then (Inl (ApiError st), s1)
           else (case body of None \<Rightarrow> (Inl BodyNotJSON, s1) | Some d \<Rightarrow> (Inr d, s1))))"

definition try_block :: "'d net \<Rightarrow> string \<Rightarrow> state \<Rightarrow> (error + 'd) \<times> state" where
  "try_block net path s =
     (case chooseAPI net (Some path) s of
        (Inl e, s1) \<Rightarrow> (Inl e, s1)
      | (Inr base, s1) \<Rightarrow> fetch_json net (base @ path) s1)"

definition catch_block :: "'d net \<Rightarrow> string \<Rightarrow> state \<Rightarrow> (error + 'd) \<times> state" where
  "catch_block net path s =
     (let s1 = markUnhealthy s in
      case chooseAPI net (Some path) s1 of
        (Inl e, s2) \<Rightarrow> (Inl e, s2)
      | (Inr base2, s2) \<Rightarrow> fetch_json net (base2 @ path) s2)"

definition apiFetchJSON :: "'d net \<Rightarrow> string \<Rightarrow> state \<Rightarrow> (error + 'd) \<times> state" where
  "apiFetchJSON net path s =
     (case try_block net path s of
        (Inr d, s1) \<Rightarrow> (Inr d, s1)
      | (Inl e, s1) \<Rightarrow> catch_block net path s1)"

subsection \<open>Notions used to state the properties\<close>

text \<open>A probe outcome that \<^verbatim>\<open>chooseAPI\<close> counts as healthy: an ok response or a 404.\<close>

definition responds :: "'d outcome \<Rightarrow> bool" where
  "responds out = (case out of Rejected \<Rightarrow> False | Response st body \<Rightarrow> ok st \<or> st = 404)"

text \<open>
  The states the program can be in: the cursor is a position of the mirror list, and a
  cached endpoint is the mirror at the cursor.
\<close>

definition valid_state :: "state \<Rightarrow> bool" where
  "valid_state s \<longleftrightarrow>
     0 \<le> currentAPIIndex s \<and> currentAPIIndex s < int (length PIPED_APIS) \<and>
     (case lastHealthyAPI s of
        None \<Rightarrow> True
      | Some b \<Rightarrow> js_index PIPED_APIS (currentAPIIndex s) = Some b)"

text \<open>A run of consecutive calls of \<^verbatim>\<open>chooseAPI\<close>, one per given argument, with their results.\<close>

fun chooseAPI_calls :: "'d net \<Rightarrow> string option list \<Rightarrow> state \<Rightarrow> (error + string) list \<times> state" where
  "chooseAPI_calls net [] s = ([], s)"
| "chooseAPI_calls net (ep # eps) s =
     (case chooseAPI net ep s of
        (r, s1) \<Rightarrow> (case chooseAPI_calls net eps s1 of (rs, s2) \<Rightarrow> (r # rs, s2)))"

text \<open>How many requests with a given verb a history holds.\<close>

definition count_verb :: "verb \<Rightarrow> (verb \<times> string) list \<Rightarrow> nat" where
  "count_verb v l = length (filter (\<lambda>r. fst r = v) l)"

subsection \<open>Completion order, as the specification words it\<close>

text \<open>
  The specification reads the choice among the probes as "the first healthy result by
  completion". These two definitions follow its words, for comparison with what
  \<open>chooseAPI\<close> computes: when the \<open>i\<close>-th promise of a batch settles at time \<open>delay i\<close>,
  \<open>settle_order\<close> lists the settled values from the earliest to the latest (promises
  settling at the same time in the order of the batch), and
  \<open>first_healthy_by_completion\<close> is the first truthy value of that list.
\<close>

definition settle_order :: "(nat \<Rightarrow> nat) \<Rightarrow> 'a list \<Rightarrow> 'a list" where
  "settle_order delay rs = map snd (sort_key (\<lambda>p. delay (fst p)) (enumerate 0 rs))"

definition first_healthy_by_completion :: "(nat \<Rightarrow> nat) \<Rightarrow> string option list \<Rightarrow> string option" where
  "first_healthy_by_completion delay rs =
     (case find truthy (settle_order delay rs) of
        None \<Rightarrow> None
      | Some r \<Rightarrow> r)"

section \<open>Video identifier extraction\<close>

text \<open>
  Texts are lists of 8-bit characters: the model covers the texts whose characters lie
  in the Latin-1 range.
\<close>

subsection \<open>The pattern \<^verbatim>\<open>YT_RE\<close>\<close>

text \<open>
  \<^verbatim>\<open>/https?:\/\/(www\.)?(youtube\.com\/watch\?v=|youtu\.be\/)([A-Za-z0-9_\-]{6,})/i\<close>

  The matcher follows the backtracking order of the pattern: an optional part is tried
  present first and absent second, the alternatives of a group from left to right, and
  the final repetition takes as many characters as it can. Nothing follows the
  repetition, so its longest run is the match whenever it has six characters.
\<close>

definition is_id_char :: "char \<Rightarrow> bool" where
  "is_id_char c =
     (let n = (of_char c :: nat) in
      (65 \<le> n \<and> n \<le> 90) \<or> (97 \<le> n \<and> n \<le> 122) \<or> (48 \<le> n \<and> n \<le> 57) \<or> n = 95 \<or> n = 45)"

text \<open>\<open>p\<close> first, and \<open>q\<close> when \<open>p\<close> finds no match.\<close>

definition or_else :: "'a option \<Rightarrow> 'a option \<Rightarrow> 'a option" where
  "or_else p q = (case p of Some m \<Rightarrow> Some m | None \<Rightarrow> q)"

text \<open>After a literal: the continuation \<open>k\<close> runs on the rest of the text.\<close>

definition lit :: "string \<Rightarrow> (string \<Rightarrow> 'a option) \<Rightarrow> string \<Rightarrow> 'a option" where
  "lit p k s = (case ci_prefix p s of None \<Rightarrow> None | Some r \<Rightarrow> k r)"

text \<open>\<^verbatim>\<open>([A-Za-z0-9_\-]{6,})\<close>, the third group.\<close>

definition group3 :: "string \<Rightarrow> string option" where
  "group3 s = (let run = takeWhile is_id_char s in if 6 \<le> length run then Some run else None)"

text \<open>\<^verbatim>\<open>(youtube\.com\/watch\?v=|youtu\.be\/)\<close> and what follows it.\<close>

definition group2 :: "string \<Rightarrow> string option" where
  "group2 s = or_else (lit ''youtube.com/watch?v='' group3 s) (lit ''youtu.be/'' group3 s)"

text \<open>\<^verbatim>\<open>(www\.)?\<close> and what follows it.\<close>

definition group1 :: "string \<Rightarrow> string option" where
  "group1 s = or_else (lit ''www.'' group2 s) (group2 s)"

text \<open>The whole pattern, matched at the start of the text.\<close>

definition match_here :: "string \<Rightarrow> string option" where
  "match_here s =
     lit ''http'' (\<lambda>r. or_else (lit ''s'' (lit ''://'' group1) r) (lit ''://'' group1 r)) s"

text \<open>
  \<^verbatim>\<open>url.match(YT_RE)\<close> followed by \<^verbatim>\<open>m ? m[3] : null\<close>: the pattern is tried at every
  position from the left, and the third group of the first match is the result.
\<close>

fun match_YT_RE :: "string \<Rightarrow> string option" where
  "match_YT_RE [] = match_here []"
| "match_YT_RE (c # cs) = or_else (match_here (c # cs)) (match_YT_RE cs)"

subsection \<open>\<^verbatim>\<open>getVideoId\<close>\<close>

text \<open>
  The three properties of a parsed \<^verbatim>\<open>URL\<close> object that \<^verbatim>\<open>getVideoId\<close> reads. The search
  parameters are the decoded name and value pairs in the order of the query.
\<close>

record url =
  hostname :: string
  pathname :: string
  searchParams :: "(string \<times> string) list"

text \<open>
  The constructor \<^verbatim>\<open>new URL(text)\<close> belongs to the platform, not to the program. It is a
  parameter of the model: a function that gives the parsed object, or \<open>None\<close> when the
  constructor throws.
\<close>

type_synonym url_parser = "string \<Rightarrow> url option"

text \<open>\<^verbatim>\<open>s.includes(sub)\<close>.\<close>

fun includes_str :: "string \<Rightarrow> string \<Rightarrow> bool" where
  "includes_str [] sub = (sub = [])"
| "includes_str (c # cs) sub = (take (length sub) (c # cs) = sub \<or> includes_str cs sub)"

text \<open>\<^verbatim>\<open>searchParams.get(name)\<close>: the value of the first pair with that name.\<close>

fun params_get :: "(string \<times> string) list \<Rightarrow> string \<Rightarrow> string option" where
  "params_get [] name = None"
| "params_get ((k, v) # ps) name = (if k = name then Some v else params_get ps name)"

text \<open>The body of the \<^verbatim>\<open>try\<close> block; \<open>Inl\<close> is an exception leaving it.\<close>

definition try_body :: "url_parser \<Rightarrow> string \<Rightarrow> exn + string option" where
  "try_body new_URL text =
     (case new_URL text of
        None \<Rightarrow> Inl TypeError
      | Some u \<Rightarrow>
          (if includes_str (hostname u) ''youtu.be'' then Inr (Some (drop 1 (pathname u)))
           else if truthy (params_get (searchParams u) ''v'') then Inr (params_get (searchParams u) ''v'')
           else Inr (match_YT_RE text)))"

text \<open>The function: the \<^verbatim>\<open>catch\<close> block turns every exception into \<^verbatim>\<open>null\<close>.\<close>

definition getVideoId :: "url_parser \<Rightarrow> string \<Rightarrow> exn + string option" where
  "getVideoId new_URL text =
     (case try_body new_URL text of
        Inl e \<Rightarrow> Inr None
      | Inr r \<Rightarrow> Inr r)"

text \<open>
  The texts that the part of \<^verbatim>\<open>YT_RE\<close> in front of the identifier matches: the scheme
  with or without \<^verbatim>\<open>s\<close>, \<^verbatim>\<open>://\<close>, \<^verbatim>\<open>www.\<close> or nothing, and one of the two sites, up to
  the case of the letters.
\<close>

definition yt_prefix :: "string \<Rightarrow> bool" where
  "yt_prefix pf \<longleftrightarrow>
     (\<exists>sch\<in>set [''https'', ''http'']. \<exists>w\<in>set [''www.'', []].
        \<exists>site\<in>set [''youtube.com/watch?v='', ''youtu.be/''].
          map canon pf = map canon (sch @ ''://'' @ w @ site))"


subsection \<open>A model of the platform's \<^verbatim>\<open>URL\<close> constructor\<close>

text \<open>
  The concrete inputs below need the value of \<^verbatim>\<open>new URL(text)\<close> on concrete texts. The
  model follows the parsing algorithm of the URL Standard on a fragment of the texts
  and says so when a text is outside the fragment:
  \<^item> \<open>Failure\<close>: the constructor throws. This is the case when, after the removal of
    surrounding control characters and spaces and of all tabs and newlines, the text
    does not start with a scheme (a letter, then letters, digits, \<^verbatim>\<open>+\<close>, \<^verbatim>\<open>-\<close>, \<^verbatim>\<open>.\<close>,
    then a colon), or when an \<^verbatim>\<open>http\<close> or \<^verbatim>\<open>https\<close> text has an empty host.
  \<^item> \<open>Success u\<close>: the constructor returns an object with the three properties of \<open>u\<close>.
    This is the case for \<^verbatim>\<open>http\<close> and \<^verbatim>\<open>https\<close> texts with a host of letters, digits,
    hyphens and dots that is neither an internationalised name nor number-like, no
    credentials and no port, a path of plain characters without dot segments, and a
    query without percent escapes.
  \<^item> \<open>Outside\<close>: the text is not in the fragment and the model says nothing about it.
\<close>

datatype modelled = Outside | Failure | Success url

definition is_alpha :: "char \<Rightarrow> bool" where
  "is_alpha c = (let n = (of_char c :: nat) in (65 \<le> n \<and> n \<le> 90) \<or> (97 \<le> n \<and> n \<le> 122))"

definition is_digit :: "char \<Rightarrow> bool" where
  "is_digit c = (let n = (of_char c :: nat) in 48 \<le> n \<and> n \<le> 57)"

definition lower :: "char \<Rightarrow> char" where
  "lower c = (let n = (of_char c :: nat) in if 65 \<le> n \<and> n \<le> 90 then char_of (n + 32) else c)"

definition c0_or_space :: "char \<Rightarrow> bool" where
  "c0_or_space c \<longleftrightarrow> (of_char c :: nat) \<le> 32"

definition tab_or_newline :: "char \<Rightarrow> bool" where
  "tab_or_newline c \<longleftrightarrow> (of_char c :: nat) = 9 \<or> (of_char c :: nat) = 10 \<or> (of_char c :: nat) = 13"

definition preprocess :: "string \<Rightarrow> string" where
  "preprocess s =
     filter (\<lambda>c. \<not> tab_or_newline c) (rev (dropWhile c0_or_space (rev (dropWhile c0_or_space s))))"

definition scheme_char :: "char \<Rightarrow> bool" where
  "scheme_char c \<longleftrightarrow> is_alpha c \<or> is_digit c \<or> c = CHR ''+'' \<or> c = CHR ''-'' \<or> c = CHR ''.''"

text \<open>The scheme in lower case and the text after its colon, when the text starts with a scheme.\<close>

definition split_scheme :: "string \<Rightarrow> (string \<times> string) option" where
  "split_scheme s =
     (case s of
        [] \<Rightarrow> None
      | c # cs \<Rightarrow>
          (if \<not> is_alpha c then None
           else (case dropWhile scheme_char s of
                   [] \<Rightarrow> None
                 | d # ds \<Rightarrow>
                     (if d = CHR '':'' then Some (map lower (takeWhile scheme_char s), ds)
                      else None))))"

definition is_slash :: "char \<Rightarrow> bool" where
  "is_slash c \<longleftrightarrow> c = CHR ''/'' \<or> c = CHR 0x5C"

text \<open>The characters that end the authority, and those that end the path.\<close>

definition auth_end :: "char \<Rightarrow> bool" where
  "auth_end c \<longleftrightarrow> is_slash c \<or> c = CHR ''?'' \<or> c = CHR ''#''"

definition path_end :: "char \<Rightarrow> bool" where
  "path_end c \<longleftrightarrow> c = CHR ''?'' \<or> c = CHR ''#''"

definition host_char :: "char \<Rightarrow> bool" where
  "host_char c \<longleftrightarrow> is_alpha c \<or> is_digit c \<or> c = CHR ''-'' \<or> c = CHR ''.''"

text \<open>The last label of a host, a single trailing dot set aside.\<close>

definition last_label :: "string \<Rightarrow> string" where
  "last_label h =
     (let l = (if h \<noteq> [] \<and> last h = CHR ''.'' then butlast h else h)
      in rev (takeWhile (\<lambda>c. c \<noteq> CHR ''.'') (rev l)))"

definition simple_host :: "string \<Rightarrow> bool" where
  "simple_host h \<longleftrightarrow>
     h \<noteq> [] \<and> list_all host_char h \<and> \<not> includes_str (map lower h) ''xn--'' \<and>
     (case last_label h of [] \<Rightarrow> False | c # cs \<Rightarrow> is_alpha c)"

text \<open>Characters that the path keeps as they are: letters, digits and \<^verbatim>\<open>-._~/!$&'()*+,;=:@\<close>.\<close>

definition path_char :: "char \<Rightarrow> bool" where
  "path_char c \<longleftrightarrow>
     is_alpha c \<or> is_digit c \<or>
     (of_char c :: nat) \<in> set [45, 46, 95, 126, 47, 33, 36, 38, 39, 40, 41, 42, 43, 44, 59, 61, 58, 64]"

fun split_at :: "char \<Rightarrow> string \<Rightarrow> string list" where
  "split_at d [] = [[]]"
| "split_at d (c # cs) =
     (if c = d then [] # split_at d cs
      else (case split_at d cs of [] \<Rightarrow> [[c]] | x # xs \<Rightarrow> (c # x) # xs))"

definition simple_path :: "string \<Rightarrow> bool" where
  "simple_path p \<longleftrightarrow>
     list_all path_char p \<and> ''.'' \<notin> set (split_at CHR ''/'' p) \<and> ''..'' \<notin> set (split_at CHR ''/'' p)"

definition simple_query :: "string \<Rightarrow> bool" where
  "simple_query q \<longleftrightarrow> CHR ''%'' \<notin> set q"

text \<open>
  The search parameters of a query without percent escapes: the non-empty pieces
  between \<^verbatim>\<open>&\<close>, each split at its first \<^verbatim>\<open>=\<close>, with \<^verbatim>\<open>+\<close> read as a space.
\<close>

definition decode_plus :: "string \<Rightarrow> string" where
  "decode_plus s = map (\<lambda>c. if c = CHR ''+'' then CHR '' '' else c) s"

definition parse_pair :: "string \<Rightarrow> string \<times> string" where
  "parse_pair piece =
     (decode_plus (takeWhile (\<lambda>c. c \<noteq> CHR ''='') piece),
      decode_plus (drop 1 (dropWhile (\<lambda>c. c \<noteq> CHR ''='') piece)))"

definition parse_query :: "string \<Rightarrow> (string \<times> string) list" where
  "parse_query q = map parse_pair (filter (\<lambda>piece. piece \<noteq> []) (split_at CHR ''&'' q))"

definition query_of :: "string \<Rightarrow> string" where
  "query_of r = (case r of [] \<Rightarrow> [] | c # q \<Rightarrow> (if c = CHR ''?'' then takeWhile (\<lambda>c. c \<noteq> CHR ''#'') q else []))"

definition URL_model :: "string \<Rightarrow> modelled" where
  "URL_model text =
     (case split_scheme (preprocess text) of
        None \<Rightarrow> Failure
      | Some (scheme, r) \<Rightarrow>
          (if scheme \<noteq> ''http'' \<and> scheme \<noteq> ''https'' then Outside
           else
             (let r1 = dropWhile is_slash r;
                  auth = takeWhile (\<lambda>c. \<not> auth_end c) r1;
                  r2 = dropWhile (\<lambda>c. \<not> auth_end c) r1;
                  path = takeWhile (\<lambda>c. \<not> path_end c) r2;
                  query = query_of (dropWhile (\<lambda>c. \<not> path_end c) r2)
              in if auth = [] then Failure
                 else if \<not> simple_host auth then Outside
                 else if \<not> simple_path path then Outside
                 else if \<not> simple_query query then Outside
                 else Success
                        \<lparr>hostname = map lower auth,
                         pathname = (if path = [] then ''/'' else path),
                         searchParams = parse_query query\<rparr>)))"


text \<open>The parser that does what the model says and throws on every text outside the fragment.\<close>

definition fragment_parser :: url_parser where
  "fragment_parser text = (case URL_model text of Success u \<Rightarrow> Some u | Failure \<Rightarrow> None | Outside \<Rightarrow> None)"

section \<open>Concrete networks and inputs\<close>

text \<open>Every probe is answered with status 503; every other request is rejected.\<close>

definition net_down :: "unit net" where
  "net_down = (\<lambda>n m u. if m = HEAD then Response 503 None else Rejected)"

text \<open>Only the third mirror answers its probe.\<close>

definition net_third :: "string \<Rightarrow> unit net" where
  "net_third path =
     (\<lambda>n m u. if u = ''https://pipedapi.syncpundit.io'' @ path then Response 200 (Some ()) else Rejected)"

text \<open>Every probe is answered with status 200 and every other request with status 500.\<close>

definition net_500 :: "unit net" where
  "net_500 = (\<lambda>n m u. if m = HEAD then Response 200 None else Response 500 None)"

text \<open>The first mirror is cached, as after a successful lookup through it.\<close>

definition cached_kavin :: state where
  "cached_kavin = markHealthy ''https://pipedapi.kavin.rocks'' initial"

text \<open>Every request is answered with status 200 and the document \<open>()\<close>.\<close>

definition net_up :: "unit net" where
  "net_up = (\<lambda>n m u. Response 200 (Some ()))"

text \<open>Settling times under which a later promise of a batch settles earlier.\<close>

definition late_first :: "nat \<Rightarrow> nat" where
  "late_first i = 10 - i"

section \<open>Properties of the variant selector\<close>

lemma js_insert_first:
  "first_or_null (js_insert cmp x ys) =
     (case ys of [] \<Rightarrow> Some x | y # _ \<Rightarrow> (if cmp x y \<le> 0 then Some x else Some y))"
  by (cases ys) (simp_all add: first_or_null_def)

lemma find_is_member: "find P xs = Some s \<Longrightarrow> s \<in> set xs \<and> P s"
  by (induction xs) (auto split: if_splits)

lemma first_or_null_Nil_iff: "first_or_null xs = None \<longleftrightarrow> xs = []"
  by (cases xs) (simp_all add: first_or_null_def)













lemma ci_prefix_append:
  "ci_prefix p s = Some r \<longleftrightarrow> (\<exists>m. s = m @ r \<and> map canon m = map canon p)"
proof (induction p s rule: ci_prefix.induct)
  case (1 s)
  show ?case by auto
next
  case (2 p ps)
  show ?case by auto
next
  case (3 p ps c cs)
  show ?case
  proof (cases "ci_eq p c")
    case True
    have "(\<exists>m. c # cs = m @ r \<and> map canon m = map canon (p # ps))
          \<longleftrightarrow> (\<exists>m'. cs = m' @ r \<and> map canon m' = map canon ps)"
    proof
      assume "\<exists>m. c # cs = m @ r \<and> map canon m = map canon (p # ps)"
      then obtain m where m: "c # cs = m @ r" "map canon m = map canon (p # ps)" by blast
      then obtain m' where "m = c # m'" by (cases m) auto
      with m show "\<exists>m'. cs = m' @ r \<and> map canon m' = map canon ps" by auto
    next
      assume "\<exists>m'. cs = m' @ r \<and> map canon m' = map canon ps"
      then obtain m' where "cs = m' @ r" "map canon m' = map canon ps" by blast
      with True have "c # cs = (c # m') @ r \<and> map canon (c # m') = map canon (p # ps)"
        by (simp add: ci_eq_def)
      then show "\<exists>m. c # cs = m @ r \<and> map canon m = map canon (p # ps)" by blast
    qed
    with True 3 show ?thesis by simp
  next
    case False
    have "\<not> (\<exists>m. c # cs = m @ r \<and> map canon m = map canon (p # ps))"
    proof
      assume "\<exists>m. c # cs = m @ r \<and> map canon m = map canon (p # ps)"
      then obtain m where m: "c # cs = m @ r" "map canon m = map canon (p # ps)" by blast
      then obtain m' where "m = c # m'" by (cases m) auto
      with m False show False by (simp add: ci_eq_def)
    qed
    with False show ?thesis by simp
  qed
qed


subsection \<open>The claims about the variant selector\<close>





section \<open>Properties of the identifier extraction\<close>

lemma lit_Some_iff:
  "lit p k s = Some m \<longleftrightarrow> (\<exists>pf r. s = pf @ r \<and> map canon pf = map canon p \<and> k r = Some m)"
proof
  assume "lit p k s = Some m"
  then obtain r where r: "ci_prefix p s = Some r" "k r = Some m"
    by (auto simp: lit_def split: option.splits)
  from r(1) obtain pf where "s = pf @ r" "map canon pf = map canon p"
    using ci_prefix_append[of p s r] by blast
  with r(2) show "\<exists>pf r. s = pf @ r \<and> map canon pf = map canon p \<and> k r = Some m" by blast
next
  assume "\<exists>pf r. s = pf @ r \<and> map canon pf = map canon p \<and> k r = Some m"
  then obtain pf r where h: "s = pf @ r" "map canon pf = map canon p" "k r = Some m" by blast
  then have "ci_prefix p s = Some r" using ci_prefix_append[of p s r] by blast
  with h(3) show "lit p k s = Some m" by (simp add: lit_def)
qed

lemma or_else_Some_iff: "or_else a b = Some m \<longleftrightarrow> a = Some m \<or> (a = None \<and> b = Some m)"
  by (cases a) (simp_all add: or_else_def)

lemma or_else_None_iff: "or_else a b = None \<longleftrightarrow> a = None \<and> b = None"
  by (cases a) (simp_all add: or_else_def)

lemma group3_Some_iff:
  "group3 r = Some m \<longleftrightarrow> m = takeWhile is_id_char r \<and> 6 \<le> length m"
  by (auto simp: group3_def Let_def)

lemma group2_SomeD:
  assumes "group2 s = Some m"
  shows "\<exists>site pf r. (site = ''youtube.com/watch?v='' \<or> site = ''youtu.be/'')
          \<and> map canon pf = map canon site \<and> s = pf @ r \<and> group3 r = Some m"
  using assms unfolding group2_def or_else_Some_iff lit_Some_iff by blast

lemma group1_SomeD:
  assumes "group1 s = Some m"
  shows "\<exists>w site pf r. (w = ''www.'' \<or> w = []) \<and> (site = ''youtube.com/watch?v='' \<or> site = ''youtu.be/'')
          \<and> map canon pf = map canon (w @ site) \<and> s = pf @ r \<and> group3 r = Some m"
proof -
  from assms have "lit ''www.'' group2 s = Some m \<or> group2 s = Some m"
    unfolding group1_def or_else_Some_iff by blast
  then show ?thesis
  proof
    assume "group2 s = Some m"
    from group2_SomeD[OF this] obtain site pf r where
      "site = ''youtube.com/watch?v='' \<or> site = ''youtu.be/''"
      "map canon pf = map canon ([] @ site)" "s = pf @ r" "group3 r = Some m" by auto
    then show ?thesis by blast
  next
    assume "lit ''www.'' group2 s = Some m"
    then obtain pf1 r1 where 1: "s = pf1 @ r1" "map canon pf1 = map canon ''www.''" "group2 r1 = Some m"
      unfolding lit_Some_iff by blast
    from group2_SomeD[OF 1(3)] obtain site pf2 r where 2:
      "site = ''youtube.com/watch?v='' \<or> site = ''youtu.be/''"
      "map canon pf2 = map canon site" "r1 = pf2 @ r" "group3 r = Some m" by blast
    have "s = (pf1 @ pf2) @ r" using 1 2 by simp
    moreover have "map canon (pf1 @ pf2) = map canon (''www.'' @ site)"
      using 1(2) 2(2) by (simp only: map_append)
    ultimately show ?thesis using 2(1) 2(4) by blast
  qed
qed

lemma scheme_SomeD:
  assumes "match_here s = Some m"
  shows "\<exists>sch pf r. (sch = ''https'' \<or> sch = ''http'') \<and> map canon pf = map canon (sch @ ''://'')
          \<and> s = pf @ r \<and> group1 r = Some m"
proof -
  from assms obtain pf1 r1 where 1: "s = pf1 @ r1" "map canon pf1 = map canon ''http''"
    and o: "lit ''s'' (lit ''://'' group1) r1 = Some m \<or> lit ''://'' group1 r1 = Some m"
    unfolding match_here_def lit_Some_iff[of "''http''"] or_else_Some_iff by blast
  from o show ?thesis
  proof
    assume "lit ''://'' group1 r1 = Some m"
    then obtain pf2 r where 2: "r1 = pf2 @ r" "map canon pf2 = map canon ''://''" "group1 r = Some m"
      unfolding lit_Some_iff by blast
    have "s = (pf1 @ pf2) @ r" using 1 2 by simp
    moreover have "map canon (pf1 @ pf2) = map canon (''http'' @ ''://'')"
      using 1(2) 2(2) by (simp only: map_append)
    ultimately show ?thesis using 2(3) by blast
  next
    assume "lit ''s'' (lit ''://'' group1) r1 = Some m"
    then obtain pf2 r2 where 2: "r1 = pf2 @ r2" "map canon pf2 = map canon ''s''"
      and "lit ''://'' group1 r2 = Some m"
      unfolding lit_Some_iff[of "''s''"] by blast
    then obtain pf3 r where 3: "r2 = pf3 @ r" "map canon pf3 = map canon ''://''" "group1 r = Some m"
      unfolding lit_Some_iff by blast
    have "s = (pf1 @ pf2 @ pf3) @ r" using 1 2 3 by simp
    moreover have "map canon (pf1 @ pf2 @ pf3) = map canon (''https'' @ ''://'')"
      using 1(2) 2(2) 3(2) by simp
    ultimately show ?thesis using 3(3) by blast
  qed
qed

lemma yt_prefixI:
  assumes "sch = ''https'' \<or> sch = ''http''" and "w = ''www.'' \<or> w = []"
    and "site = ''youtube.com/watch?v='' \<or> site = ''youtu.be/''"
    and "map canon pf = map canon (sch @ ''://'' @ w @ site)"
  shows "yt_prefix pf"
proof -
  have "sch \<in> set [''https'', ''http'']" using assms(1) by auto
  moreover have "w \<in> set [''www.'', []]" using assms(2) by auto
  moreover have "site \<in> set [''youtube.com/watch?v='', ''youtu.be/'']" using assms(3) by auto
  ultimately show ?thesis unfolding yt_prefix_def using assms(4) by blast
qed

lemma yt_prefixE:
  assumes "yt_prefix pf"
  obtains sch w site where "sch = ''https'' \<or> sch = ''http''" "w = ''www.'' \<or> w = []"
    "site = ''youtube.com/watch?v='' \<or> site = ''youtu.be/''"
    "map canon pf = map canon (sch @ ''://'' @ w @ site)"
proof -
  from assms obtain sch w site where "sch \<in> set [''https'', ''http'']" "w \<in> set [''www.'', []]"
    "site \<in> set [''youtube.com/watch?v='', ''youtu.be/'']"
    "map canon pf = map canon (sch @ ''://'' @ w @ site)"
    unfolding yt_prefix_def by blast
  moreover from this have "sch = ''https'' \<or> sch = ''http''" "w = ''www.'' \<or> w = []"
    "site = ''youtube.com/watch?v='' \<or> site = ''youtu.be/''" by auto
  ultimately show ?thesis using that by blast
qed

lemma match_here_sound:
  assumes "match_here s = Some m"
  shows "\<exists>pf r. yt_prefix pf \<and> s = pf @ r \<and> m = takeWhile is_id_char r \<and> 6 \<le> length m"
proof -
  from scheme_SomeD[OF assms] obtain sch pf1 r1 where 1: "sch = ''https'' \<or> sch = ''http''"
    "map canon pf1 = map canon (sch @ ''://'')" "s = pf1 @ r1" "group1 r1 = Some m" by blast
  from group1_SomeD[OF 1(4)] obtain w site pf2 r where 2: "w = ''www.'' \<or> w = []"
    "site = ''youtube.com/watch?v='' \<or> site = ''youtu.be/''"
    "map canon pf2 = map canon (w @ site)" "r1 = pf2 @ r" "group3 r = Some m" by blast
  have "map canon (pf1 @ pf2) = map canon (sch @ ''://'' @ w @ site)"
    using 1(2) 2(3) by (simp only: map_append append_assoc)
  then have "yt_prefix (pf1 @ pf2)" by (rule yt_prefixI[OF 1(1) 2(1) 2(2)])
  moreover have "s = (pf1 @ pf2) @ r" using 1 2 by simp
  ultimately show ?thesis using 2(5) unfolding group3_Some_iff by blast
qed

lemma ci_prefix_app:
  "ci_prefix (a @ b) s = (case ci_prefix a s of None \<Rightarrow> None | Some r \<Rightarrow> ci_prefix b r)"
  by (induction a s rule: ci_prefix.induct) simp_all

lemma ci_prefix_chain:
  "ci_prefix (a @ b) s = Some r \<Longrightarrow> \<exists>r1. ci_prefix a s = Some r1 \<and> ci_prefix b r1 = Some r"
  by (simp add: ci_prefix_app split: option.splits)

lemma lit_found: "ci_prefix p s = Some r \<Longrightarrow> k r \<noteq> None \<Longrightarrow> lit p k s \<noteq> None"
  by (simp add: lit_def)

lemma group2_found:
  assumes "site = ''youtube.com/watch?v='' \<or> site = ''youtu.be/''"
    and "ci_prefix site s = Some r" and "group3 r \<noteq> None"
  shows "group2 s \<noteq> None"
proof -
  have "lit site group3 s \<noteq> None" by (rule lit_found[where k=group3, OF assms(2) assms(3)])
  with assms(1) show ?thesis by (auto simp: group2_def or_else_None_iff)
qed

lemma group1_found:
  assumes "w = ''www.'' \<or> w = []"
    and "site = ''youtube.com/watch?v='' \<or> site = ''youtu.be/''"
    and "ci_prefix (w @ site) s = Some r" and "group3 r \<noteq> None"
  shows "group1 s \<noteq> None"
proof -
  from ci_prefix_chain[OF assms(3)] obtain r1 where r1: "ci_prefix w s = Some r1" "ci_prefix site r1 = Some r"
    by blast
  have g: "group2 r1 \<noteq> None" by (rule group2_found[OF assms(2) r1(2) assms(4)])
  from assms(1) show ?thesis
  proof
    assume "w = ''www.''"
    with r1(1) have "ci_prefix ''www.'' s = Some r1" by simp
    then have "lit ''www.'' group2 s \<noteq> None" by (rule lit_found[where k=group2, OF _ g])
    then show ?thesis by (simp add: group1_def or_else_None_iff)
  next
    assume "w = []"
    with r1(1) g show ?thesis by (simp add: group1_def or_else_None_iff)
  qed
qed

lemma match_here_found:
  assumes "sch = ''https'' \<or> sch = ''http''"
    and "w = ''www.'' \<or> w = []"
    and "site = ''youtube.com/watch?v='' \<or> site = ''youtu.be/''"
    and "ci_prefix (sch @ ''://'' @ w @ site) s = Some r" and "group3 r \<noteq> None"
  shows "match_here s \<noteq> None"
proof -
  from ci_prefix_chain[OF assms(4)] obtain r1 where r1: "ci_prefix sch s = Some r1"
    "ci_prefix (''://'' @ w @ site) r1 = Some r" by blast
  from ci_prefix_chain[OF r1(2)] obtain r2 where r2: "ci_prefix ''://'' r1 = Some r2"
    "ci_prefix (w @ site) r2 = Some r" by blast
  have g: "group1 r2 \<noteq> None" by (rule group1_found[OF assms(2) assms(3) r2(2) assms(5)])
  have l: "lit ''://'' group1 r1 \<noteq> None" by (rule lit_found[where k=group1, OF r2(1) g])
  from assms(1) show ?thesis
  proof
    assume "sch = ''http''"
    with r1(1) l show ?thesis
      by (simp add: match_here_def lit_def or_else_None_iff)
  next
    assume s: "sch = ''https''"
    then have "ci_prefix (''http'' @ ''s'') s = Some r1" using r1(1) by simp
    from ci_prefix_chain[OF this] obtain r0 where r0: "ci_prefix ''http'' s = Some r0"
      "ci_prefix ''s'' r0 = Some r1" by blast
    have "lit ''s'' (lit ''://'' group1) r0 \<noteq> None"
      by (rule lit_found[where k="lit ''://'' group1", OF r0(2) l])
    with r0(1) show ?thesis
      by (simp add: match_here_def lit_def or_else_None_iff)
  qed
qed

lemma match_here_complete:
  assumes "yt_prefix pf" and "6 \<le> length (takeWhile is_id_char r)"
  shows "match_here (pf @ r) \<noteq> None"
proof -
  from assms(1) obtain sch w site where h: "sch = ''https'' \<or> sch = ''http''" "w = ''www.'' \<or> w = []"
    "site = ''youtube.com/watch?v='' \<or> site = ''youtu.be/''"
    "map canon pf = map canon (sch @ ''://'' @ w @ site)"
    by (rule yt_prefixE)
  have c: "ci_prefix (sch @ ''://'' @ w @ site) (pf @ r) = Some r"
    using h(4) ci_prefix_append[of "sch @ ''://'' @ w @ site" "pf @ r" r] by blast
  have g: "group3 r \<noteq> None" using assms(2) by (simp add: group3_def Let_def)
  show ?thesis by (rule match_here_found[OF h(1) h(2) h(3) c g])
qed

lemma match_YT_RE_sound:
  "match_YT_RE s = Some m \<Longrightarrow> \<exists>pre s'. s = pre @ s' \<and> match_here s' = Some m"
proof (induction s)
  case Nil
  then show ?case by simp
next
  case (Cons c cs)
  from Cons.prems have "match_here (c # cs) = Some m \<or> match_YT_RE cs = Some m"
    by (auto simp: or_else_Some_iff)
  then show ?case
  proof
    assume "match_here (c # cs) = Some m"
    then have "c # cs = [] @ (c # cs) \<and> match_here (c # cs) = Some m" by simp
    then show ?thesis by blast
  next
    assume "match_YT_RE cs = Some m"
    from Cons.IH[OF this] obtain pre s' where "cs = pre @ s'" "match_here s' = Some m" by blast
    then have "c # cs = (c # pre) @ s' \<and> match_here s' = Some m" by simp
    then show ?thesis by blast
  qed
qed

lemma match_YT_RE_complete:
  "match_here s' \<noteq> None \<Longrightarrow> match_YT_RE (pre @ s') \<noteq> None"
proof (induction pre)
  case Nil
  then show ?case by (cases s') (simp_all add: or_else_None_iff)
next
  case (Cons c pre)
  then show ?case by (simp add: or_else_None_iff)
qed

lemma match_YT_RE_shape:
  "(match_YT_RE text = Some m \<longrightarrow>
      6 \<le> length m \<and> list_all is_id_char m
      \<and> (\<exists>pre pf rest. yt_prefix pf \<and> text = pre @ pf @ m @ rest
            \<and> (rest = [] \<or> \<not> is_id_char (hd rest))))
   \<and> ((\<exists>pre pf m' rest. yt_prefix pf \<and> 6 \<le> length m' \<and> list_all is_id_char m'
          \<and> text = pre @ pf @ m' @ rest)
        \<longrightarrow> match_YT_RE text \<noteq> None)"
proof (intro conjI impI)
  assume a: "match_YT_RE text = Some m"
  from match_YT_RE_sound[OF a] obtain pre s' where 1: "text = pre @ s'" "match_here s' = Some m" by blast
  from match_here_sound[OF 1(2)] obtain pf r where 2: "yt_prefix pf"
    "s' = pf @ r" "m = takeWhile is_id_char r" "6 \<le> length m" by blast
  show "6 \<le> length m" by (rule 2(4))
  show "list_all is_id_char m" unfolding 2(3) list_all_iff by (auto dest: set_takeWhileD)
  let ?rest = "dropWhile is_id_char r"
  have "text = pre @ pf @ m @ ?rest" using 1(1) 2(2) 2(3) by simp
  moreover have "?rest = [] \<or> \<not> is_id_char (hd ?rest)" using hd_dropWhile[of is_id_char r] by blast
  ultimately show "\<exists>pre pf rest. yt_prefix pf \<and> text = pre @ pf @ m @ rest
            \<and> (rest = [] \<or> \<not> is_id_char (hd rest))"
    using 2(1) by blast
next
  assume "\<exists>pre pf m' rest. yt_prefix pf \<and> 6 \<le> length m' \<and> list_all is_id_char m'
          \<and> text = pre @ pf @ m' @ rest"
  then obtain pre pf m' rest where h: "yt_prefix pf"
    "6 \<le> length m'" "list_all is_id_char m'" "text = pre @ pf @ m' @ rest" by blast
  have "takeWhile is_id_char (m' @ rest) = m' @ takeWhile is_id_char rest"
    using h(3) by (intro takeWhile_append2) (simp add: list_all_iff)
  then have "6 \<le> length (takeWhile is_id_char (m' @ rest))" using h(2) by simp
  from match_here_complete[OF h(1) this] have "match_here (pf @ m' @ rest) \<noteq> None" .
  from match_YT_RE_complete[OF this, of pre] show "match_YT_RE text \<noteq> None" using h(4) by simp
qed















lemma includes_str_self: "includes_str s s"
  by (cases s) simp_all









lemma getVideoId_scan:
  "new_URL text = Some u \<Longrightarrow> \<not> includes_str (hostname u) ''youtu.be'' \<Longrightarrow>
   \<not> truthy (params_get (searchParams u) ''v'') \<Longrightarrow>
   getVideoId new_URL text = Inr (match_YT_RE text)"
  by (simp add: getVideoId_def try_body_def)

lemma getVideoId_throw: "new_URL text = None \<Longrightarrow> getVideoId new_URL text = Inr None"
  by (simp add: getVideoId_def try_body_def)


lemma includes_youtu_be: "includes_str ''youtu.be'' ''youtu.be''"
  by simp

section \<open>Properties of the rotation and the failover fetch\<close>

lemma length_PIPED_APIS: "length PIPED_APIS = 5"
  by (simp add: PIPED_APIS_def)

lemma distinct_PIPED_APIS: "distinct PIPED_APIS"
  by (simp add: PIPED_APIS_def)

lemma PIPED_APIS_nonempty: "b \<in> set PIPED_APIS \<Longrightarrow> b \<noteq> []"
  by (auto simp: PIPED_APIS_def)

lemma indexOf_range: "- 1 \<le> indexOf xs x \<and> indexOf xs x < int (length xs)"
  by (induction xs) (auto simp: Let_def)

lemma indexOf_member:
  "x \<in> set xs \<Longrightarrow> 0 \<le> indexOf xs x \<and> indexOf xs x < int (length xs) \<and> xs ! nat (indexOf xs x) = x"
proof (induction xs)
  case Nil
  then show ?case by simp
next
  case (Cons y ys)
  show ?case
  proof (cases "y = x")
    case True
    then show ?thesis by simp
  next
    case False
    with Cons.prems have "x \<in> set ys" by simp
    from Cons.IH[OF this] False show ?thesis
      by (simp add: Let_def nat_add_distrib)
  qed
qed

lemma indexOf_absent: "x \<notin> set xs \<Longrightarrow> indexOf xs x = - 1"
  by (induction xs) (auto simp: Let_def)

lemma indexOf_nth:
  "distinct xs \<Longrightarrow> i < length xs \<Longrightarrow> indexOf xs (xs ! i) = int i"
proof (induction xs arbitrary: i)
  case Nil
  then show ?case by simp
next
  case (Cons y ys)
  show ?case
  proof (cases i)
    case 0
    then show ?thesis by simp
  next
    case (Suc j)
    with Cons.prems have j: "j < length ys" "distinct ys" "y \<notin> set ys" by auto
    then have "ys ! j \<noteq> y" by (metis nth_mem)
    with Cons.IH[OF j(2) j(1)] Suc show ?thesis by (simp add: Let_def)
  qed
qed

lemma js_index_member: "js_index xs k = Some b \<Longrightarrow> b \<in> set xs"
  by (auto simp: js_index_def split: if_splits)

lemma js_index_indexOf: "x \<in> set xs \<Longrightarrow> js_index xs (indexOf xs x) = Some x"
  using indexOf_member[of x xs] by (simp add: js_index_def)

lemma js_rem_nonneg: "0 \<le> a \<Longrightarrow> 0 < b \<Longrightarrow> js_rem a b = a mod b"
  by (cases "a = 0") (simp_all add: js_rem_def)

lemma bases_member: "Some b \<in> set (bases c) \<Longrightarrow> b \<in> set PIPED_APIS"
  by (auto simp: bases_def dest: js_index_member[OF sym])

lemma length_bases: "length (bases c) = 5"
  by (simp add: bases_def length_PIPED_APIS)

lemma bases_rotate:
  assumes "0 \<le> c" "c < 5"
  shows "bases c = map Some (rotate (nat c) PIPED_APIS)"
proof (rule nth_equalityI)
  show "length (bases c) = length (map Some (rotate (nat c) PIPED_APIS))"
    by (simp add: length_bases length_PIPED_APIS)
next
  fix i assume "i < length (bases c)"
  then have i: "i < 5" by (simp add: length_bases)
  have "js_rem (c + int i) 5 = (c + int i) mod 5"
    using assms by (intro js_rem_nonneg) auto
  moreover have "nat ((c + int i) mod 5) = (nat c + i) mod 5"
    using assms by (simp add: nat_mod_distrib nat_add_distrib)
  ultimately show "bases c ! i = map Some (rotate (nat c) PIPED_APIS) ! i"
    using i assms by (simp add: bases_def length_PIPED_APIS js_index_def nth_rotate add.commute)
qed

lemma probe_value_responds:
  "probe_value out base = (if responds out then base else None)"
  by (simp add: probe_value_def responds_def split: outcome.splits)

lemma attempts_member:
  assumes "r \<in> set (attempts net ep s)" "truthy r"
  shows "\<exists>b. r = Some b \<and> b \<in> set PIPED_APIS"
proof -
  from assms(1) obtain i base where ib: "(i, base) \<in> set (enumerate 0 (bases (currentAPIIndex s)))"
    and r: "r = probe_value (net (length (sent s) + i) HEAD (concat_url base ep)) base"
    by (auto simp: attempts_def)
  from r assms(2) have "r = base" by (auto simp: probe_value_responds truthy_def split: if_splits)
  moreover from ib have "base \<in> set (bases (currentAPIIndex s))"
    by (auto simp: in_set_enumerate_eq)
  ultimately show ?thesis using assms(2) bases_member[of _ "currentAPIIndex s"]
    by (cases r) (auto simp: truthy_def)
qed

lemma find_truthy_attempts:
  "find truthy (attempts net ep s) = Some r \<Longrightarrow> \<exists>b. r = Some b \<and> b \<in> set PIPED_APIS"
  using attempts_member[of r net ep s] by (auto dest: find_is_member)

lemma chooseAPI_cached:
  "getCachedHealthy s = Some x \<Longrightarrow> chooseAPI net ep s = (Inr x, s)"
  by (simp add: chooseAPI_def)

lemma chooseAPI_uncached:
  "getCachedHealthy s = None \<Longrightarrow>
   chooseAPI net ep s =
     (case find truthy (attempts net (endpoint_or_default ep) s) of
        None \<Rightarrow> (Inl AllOffline, s\<lparr>sent := sent s @ probes_sent (endpoint_or_default ep) s\<rparr>)
      | Some r \<Rightarrow> (case r of None \<Rightarrow> (Inl AllOffline, s\<lparr>sent := sent s @ probes_sent (endpoint_or_default ep) s\<rparr>)
                  | Some h \<Rightarrow> (Inr h, markHealthy h (s\<lparr>sent := sent s @ probes_sent (endpoint_or_default ep) s\<rparr>))))"
  by (simp add: chooseAPI_def Let_def split: option.splits)

lemma chooseAPI_error:
  assumes "chooseAPI net ep s = (Inl e, s')"
  shows "e = AllOffline \<and> getCachedHealthy s = None
         \<and> s' = s\<lparr>sent := sent s @ probes_sent (endpoint_or_default ep) s\<rparr>"
proof (cases "getCachedHealthy s")
  case None
  with assms show ?thesis
    by (auto simp: chooseAPI_uncached split: option.splits)
next
  case (Some x)
  with assms show ?thesis by (simp add: chooseAPI_cached)
qed

lemma chooseAPI_success:
  assumes "chooseAPI net ep s = (Inr h, s')" "getCachedHealthy s = None"
  shows "h \<in> set PIPED_APIS \<and> find truthy (attempts net (endpoint_or_default ep) s) = Some (Some h)
         \<and> s' = markHealthy h (s\<lparr>sent := sent s @ probes_sent (endpoint_or_default ep) s\<rparr>)"
  using assms find_truthy_attempts[of net "endpoint_or_default ep" s]
  by (auto simp: chooseAPI_uncached split: option.splits)

lemma getCachedHealthy_markHealthy:
  "x \<in> set PIPED_APIS \<Longrightarrow> getCachedHealthy (markHealthy x s) = Some x"
  by (simp add: getCachedHealthy_def markHealthy_def truthy_def PIPED_APIS_nonempty)

lemma getCachedHealthy_markUnhealthy: "getCachedHealthy (markUnhealthy s) = None"
  by (simp add: getCachedHealthy_def markUnhealthy_def truthy_def)

lemma valid_markHealthy: "x \<in> set PIPED_APIS \<Longrightarrow> valid_state (markHealthy x s)"
  using indexOf_member[of x PIPED_APIS]
  by (simp add: valid_state_def markHealthy_def js_index_def)

lemma cursor_markUnhealthy:
  assumes "0 \<le> currentAPIIndex s" "currentAPIIndex s < 5"
  shows "currentAPIIndex (markUnhealthy s) = (currentAPIIndex s + 1) mod 5"
  using assms by (simp add: markUnhealthy_def length_PIPED_APIS js_rem_nonneg)

lemma valid_markUnhealthy: "valid_state s \<Longrightarrow> valid_state (markUnhealthy s)"
  by (simp add: valid_state_def markUnhealthy_def length_PIPED_APIS js_rem_nonneg)

lemma valid_sent_update: "valid_state (s\<lparr>sent := l\<rparr>) = valid_state s"
  by (simp add: valid_state_def split: option.splits)

lemma valid_chooseAPI:
  assumes "valid_state s" "chooseAPI net ep s = (r, s')"
  shows "valid_state s'"
proof (cases "getCachedHealthy s")
  case (Some x)
  with assms show ?thesis by (simp add: chooseAPI_cached)
next
  case None
  show ?thesis
  proof (cases r)
    case (Inl e)
    with assms chooseAPI_error[of net ep s e s'] show ?thesis by (simp add: valid_sent_update)
  next
    case (Inr h)
    with assms None chooseAPI_success[of net ep s h s'] show ?thesis
      by (simp add: valid_markHealthy)
  qed
qed

lemma valid_initial: "valid_state initial"
  by (simp add: valid_state_def initial_def length_PIPED_APIS)

lemma attempts_all_fail:
  assumes "\<forall>n. \<forall>b\<in>set PIPED_APIS. \<not> responds (net n HEAD (b @ endpoint))"
  shows "find truthy (attempts net endpoint s) = None"
proof -
  have "\<not> truthy r" if "r \<in> set (attempts net endpoint s)" for r
  proof -
    from that obtain i base where ib: "(i, base) \<in> set (enumerate 0 (bases (currentAPIIndex s)))"
      and r: "r = probe_value (net (length (sent s) + i) HEAD (concat_url base endpoint)) base"
      by (auto simp: attempts_def)
    show ?thesis
    proof (cases base)
      case None
      with r show ?thesis by (simp add: probe_value_responds truthy_def)
    next
      case (Some b)
      with ib have "Some b \<in> set (bases (currentAPIIndex s))"
        by (auto simp: in_set_enumerate_eq dest: nth_mem)
      then have "b \<in> set PIPED_APIS" by (rule bases_member)
      with assms have "\<not> responds (net (length (sent s) + i) HEAD (b @ endpoint))" by blast
      with r Some show ?thesis by (simp add: probe_value_responds truthy_def concat_url_def)
    qed
  qed
  then show ?thesis by (simp add: find_None_iff)
qed

lemma markUnhealthy_after_markHealthy:
  assumes "h \<in> set PIPED_APIS"
  shows "currentAPIIndex (markUnhealthy (markHealthy h s)) = (indexOf PIPED_APIS h + 1) mod 5
         \<and> js_index PIPED_APIS (currentAPIIndex (markUnhealthy (markHealthy h s)))
             = Some (PIPED_APIS ! ((nat (indexOf PIPED_APIS h) + 1) mod 5))"
proof -
  from indexOf_member[OF assms] have r: "0 \<le> indexOf PIPED_APIS h" "indexOf PIPED_APIS h < 5"
    by (simp_all add: length_PIPED_APIS)
  have c: "currentAPIIndex (markUnhealthy (markHealthy h s)) = (indexOf PIPED_APIS h + 1) mod 5"
    using r by (simp add: markUnhealthy_def markHealthy_def length_PIPED_APIS js_rem_nonneg)
  have "nat ((indexOf PIPED_APIS h + 1) mod 5) = (nat (indexOf PIPED_APIS h) + 1) mod 5"
    using r by (simp add: nat_mod_distrib nat_add_distrib)
  then have "js_index PIPED_APIS ((indexOf PIPED_APIS h + 1) mod 5)
      = Some (PIPED_APIS ! ((nat (indexOf PIPED_APIS h) + 1) mod 5))"
    by (simp add: js_index_def length_PIPED_APIS)
  with c show ?thesis by simp
qed

lemma chooseAPI_net_third:
  "chooseAPI (net_third ''/p'') (Some ''/p'') initial =
    (Inr ''https://pipedapi.syncpundit.io'',
     \<lparr>currentAPIIndex = 2, lastHealthyAPI = Some ''https://pipedapi.syncpundit.io'',
      sent = map (\<lambda>b. (HEAD, b @ ''/p'')) PIPED_APIS\<rparr>)"
  by (simp add: chooseAPI_def getCachedHealthy_def initial_def truthy_def endpoint_or_default_def
    attempts_def bases_def PIPED_APIS_def js_rem_def js_index_def probe_value_def net_third_def
    concat_url_def ok_def enumerate_eq_zip upt_rec markHealthy_def probes_sent_def Let_def)

lemma getCachedHealthy_initial: "getCachedHealthy initial = None"
  by (simp add: getCachedHealthy_def initial_def truthy_def)

lemma chooseAPI_caches:
  assumes "chooseAPI net ep s = (Inr h, s')"
  shows "getCachedHealthy s' = Some h"
proof (cases "getCachedHealthy s")
  case None
  from chooseAPI_success[OF assms None] show ?thesis
    by (simp add: getCachedHealthy_markHealthy)
next
  case (Some x)
  with assms show ?thesis by (simp add: chooseAPI_cached)
qed

lemma chooseAPI_calls_cached:
  "getCachedHealthy s = Some x \<Longrightarrow> chooseAPI_calls net eps s = (map (\<lambda>ep. Inr x) eps, s)"
  by (induction eps) (simp_all add: chooseAPI_cached)

lemma nth_PIPED_APIS_inj:
  "i < 5 \<Longrightarrow> j < 5 \<Longrightarrow> PIPED_APIS ! i = PIPED_APIS ! j \<Longrightarrow> i = j"
  using distinct_PIPED_APIS by (simp add: nth_eq_iff_index_eq length_PIPED_APIS)

lemma markUnhealthy_moves:
  assumes "0 \<le> currentAPIIndex s" "currentAPIIndex s < 5"
  shows "currentAPIIndex (markUnhealthy s) = (currentAPIIndex s + 1) mod 5
         \<and> js_index PIPED_APIS (currentAPIIndex (markUnhealthy s)) \<noteq> js_index PIPED_APIS (currentAPIIndex s)
         \<and> hd (probes_sent e (markUnhealthy s))
             = (HEAD, PIPED_APIS ! nat ((currentAPIIndex s + 1) mod 5) @ e)"
proof -
  let ?c = "currentAPIIndex s" and ?c' = "(currentAPIIndex s + 1) mod 5"
  have c: "currentAPIIndex (markUnhealthy s) = ?c'"
    by (rule cursor_markUnhealthy[OF assms])
  have r: "0 \<le> ?c'" "?c' < 5" by simp_all
  have ne: "?c' \<noteq> ?c" using assms by presburger
  have "PIPED_APIS ! nat ?c' \<noteq> PIPED_APIS ! nat ?c"
  proof
    assume "PIPED_APIS ! nat ?c' = PIPED_APIS ! nat ?c"
    then have "nat ?c' = nat ?c" using r assms by (intro nth_PIPED_APIS_inj) auto
    with r ne assms show False by simp
  qed
  then have d: "js_index PIPED_APIS ?c' \<noteq> js_index PIPED_APIS ?c"
    using r assms by (simp add: js_index_def length_PIPED_APIS)
  have "bases ?c' = map Some (rotate (nat ?c') PIPED_APIS)"
    using r by (intro bases_rotate) auto
  moreover have "hd (rotate (nat ?c') PIPED_APIS) = PIPED_APIS ! nat ?c'"
    using r by (simp add: hd_rotate_conv_nth length_PIPED_APIS PIPED_APIS_def)
  moreover have "rotate (nat ?c') PIPED_APIS \<noteq> []" by (simp add: PIPED_APIS_def)
  ultimately have "hd (probes_sent e (markUnhealthy s)) = (HEAD, PIPED_APIS ! nat ?c' @ e)"
    by (simp add: probes_sent_def c hd_map concat_url_def)
  with c d show ?thesis by simp
qed

lemma length_probes_sent: "length (probes_sent e s) = 5"
  by (simp add: probes_sent_def length_bases)

lemma count_verb_append: "count_verb v (a @ b) = count_verb v a + count_verb v b"
  by (simp add: count_verb_def)

lemma count_GET_probes: "count_verb GET (probes_sent e s) = 0"
  by (simp add: count_verb_def probes_sent_def filter_map o_def)

lemma count_HEAD_probes: "count_verb HEAD (probes_sent e s) = 5"
  by (simp add: count_verb_def probes_sent_def filter_map o_def length_bases)

lemma chooseAPI_sent_uncached:
  "getCachedHealthy s = None \<Longrightarrow>
   sent (snd (chooseAPI net ep s)) = sent s @ probes_sent (endpoint_or_default ep) s"
  by (simp add: chooseAPI_uncached markHealthy_def split: option.splits)

lemma chooseAPI_sent_cases:
  "sent (snd (chooseAPI net ep s)) = sent s
   \<or> sent (snd (chooseAPI net ep s)) = sent s @ probes_sent (endpoint_or_default ep) s"
  by (cases "getCachedHealthy s") (simp_all add: chooseAPI_sent_uncached chooseAPI_cached)

lemma fetch_json_sent: "sent (snd (fetch_json net u s)) = sent s @ [(GET, u)]"
  by (simp add: fetch_json_def Let_def split: outcome.splits option.splits)

lemma fetch_json_result:
  "fst (fetch_json net u s) =
     (case net (length (sent s)) GET u of
        Rejected \<Rightarrow> Inl FetchRejected
      | Response st body \<Rightarrow>
          (if ok st then (case body of None \<Rightarrow> Inl BodyNotJSON | Some d \<Rightarrow> Inr d)
           else Inl (ApiError st)))"
  by (simp add: fetch_json_def Let_def split: outcome.splits option.splits)

lemma try_block_unfold:
  "try_block net path s =
     (case fst (chooseAPI net (Some path) s) of
        Inl e \<Rightarrow> (Inl e, snd (chooseAPI net (Some path) s))
      | Inr base \<Rightarrow> fetch_json net (base @ path) (snd (chooseAPI net (Some path) s)))"
  by (simp add: try_block_def split: prod.splits sum.splits)

lemma catch_block_unfold:
  "catch_block net path s =
     (case fst (chooseAPI net (Some path) (markUnhealthy s)) of
        Inl e \<Rightarrow> (Inl e, snd (chooseAPI net (Some path) (markUnhealthy s)))
      | Inr base \<Rightarrow> fetch_json net (base @ path) (snd (chooseAPI net (Some path) (markUnhealthy s))))"
  by (simp add: catch_block_def Let_def split: prod.splits sum.splits)

lemma try_block_sent:
  "\<exists>l. sent (snd (try_block net path s)) = sent s @ l \<and> count_verb GET l \<le> 1 \<and> count_verb HEAD l \<le> 5"
proof -
  let ?c = "chooseAPI net (Some path) s"
  have "\<exists>p. sent (snd ?c) = sent s @ p \<and> count_verb GET p = 0 \<and> count_verb HEAD p \<le> 5"
    using chooseAPI_sent_cases[of net "Some path" s]
  proof
    assume "sent (snd ?c) = sent s"
    then have "sent (snd ?c) = sent s @ [] \<and> count_verb GET [] = 0 \<and> count_verb HEAD [] \<le> 5"
      by (simp add: count_verb_def)
    then show ?thesis by blast
  next
    assume "sent (snd ?c) = sent s @ probes_sent (endpoint_or_default (Some path)) s"
    then show ?thesis using count_GET_probes count_HEAD_probes by fastforce
  qed
  then obtain p where p: "sent (snd ?c) = sent s @ p" "count_verb GET p = 0" "count_verb HEAD p \<le> 5"
    by blast
  show ?thesis
  proof (cases "fst ?c")
    case (Inl e)
    with p show ?thesis by (auto simp: try_block_unfold)
  next
    case (Inr base)
    then have "sent (snd (try_block net path s)) = sent s @ (p @ [(GET, base @ path)])"
      using p by (simp add: try_block_unfold fetch_json_sent)
    moreover have "count_verb GET (p @ [(GET, base @ path)]) \<le> 1"
      "count_verb HEAD (p @ [(GET, base @ path)]) \<le> 5"
      using p by (simp_all add: count_verb_def)
    ultimately show ?thesis by blast
  qed
qed

lemma catch_block_sent:
  "sent (snd (catch_block net path s)) =
     sent s @ probes_sent path (markUnhealthy s) @
       (case fst (chooseAPI net (Some path) (markUnhealthy s)) of
          Inl e \<Rightarrow> [] | Inr base \<Rightarrow> [(GET, base @ path)])"
proof -
  have "sent (snd (chooseAPI net (Some path) (markUnhealthy s)))
          = sent s @ probes_sent path (markUnhealthy s)"
    using chooseAPI_sent_uncached[OF getCachedHealthy_markUnhealthy, of net "Some path" s]
    by (simp add: endpoint_or_default_def markUnhealthy_def)
  then show ?thesis
    by (simp add: catch_block_unfold fetch_json_sent split: sum.splits)
qed

lemma catch_block_result:
  "fst (catch_block net path s) =
     (case fst (chooseAPI net (Some path) (markUnhealthy s)) of
        Inl e \<Rightarrow> Inl e
      | Inr base \<Rightarrow>
          (case net (length (sent s) + 5) GET (base @ path) of
             Rejected \<Rightarrow> Inl FetchRejected
           | Response st body \<Rightarrow>
              (if ok st then (case body of None \<Rightarrow> Inl BodyNotJSON | Some d \<Rightarrow> Inr d)
               else Inl (ApiError st))))"
proof -
  have "sent (snd (chooseAPI net (Some path) (markUnhealthy s)))
          = sent s @ probes_sent path (markUnhealthy s)"
    using chooseAPI_sent_uncached[OF getCachedHealthy_markUnhealthy, of net "Some path" s]
    by (simp add: endpoint_or_default_def markUnhealthy_def)
  then have "length (sent (snd (chooseAPI net (Some path) (markUnhealthy s)))) = length (sent s) + 5"
    by (simp add: length_probes_sent)
  then show ?thesis
    by (simp add: catch_block_unfold fetch_json_result split: sum.splits)
qed

lemma apiFetchJSON_GET_bound:
  "count_verb GET (sent (snd (apiFetchJSON net path s))) \<le> count_verb GET (sent s) + 2"
proof -
  obtain l where l: "sent (snd (try_block net path s)) = sent s @ l" "count_verb GET l \<le> 1"
    using try_block_sent[of net path s] by blast
  show ?thesis
  proof (cases "fst (try_block net path s)")
    case (Inr d)
    then have "apiFetchJSON net path s = try_block net path s"
      by (cases "try_block net path s") (simp add: apiFetchJSON_def)
    with l show ?thesis by (simp add: count_verb_append)
  next
    case (Inl e)
    then have "apiFetchJSON net path s = catch_block net path (snd (try_block net path s))"
      by (cases "try_block net path s") (simp add: apiFetchJSON_def)
    then have "count_verb GET (sent (snd (apiFetchJSON net path s)))
        = count_verb GET (sent s) + count_verb GET l
          + count_verb GET (case fst (chooseAPI net (Some path) (markUnhealthy (snd (try_block net path s)))) of
               Inl e \<Rightarrow> [] | Inr base \<Rightarrow> [(GET, base @ path)])"
      by (simp add: catch_block_sent l count_verb_append count_GET_probes)
    moreover have "count_verb GET (case fst (chooseAPI net (Some path) (markUnhealthy (snd (try_block net path s)))) of
               Inl e \<Rightarrow> [] | Inr base \<Rightarrow> [(GET, base @ path)]) \<le> 1"
      by (simp add: count_verb_def split: sum.splits)
    ultimately show ?thesis using l by linarith
  qed
qed

lemma valid_fetch_json: "valid_state (snd (fetch_json net u s)) = valid_state s"
  by (simp add: fetch_json_def Let_def valid_sent_update split: outcome.splits option.splits)

lemma valid_try_block: "valid_state s \<Longrightarrow> valid_state (snd (try_block net path s))"
  using valid_chooseAPI[of s net "Some path" "fst (chooseAPI net (Some path) s)" "snd (chooseAPI net (Some path) s)"]
  by (simp add: try_block_unfold valid_fetch_json split: sum.splits)

lemmas eval_defs = chooseAPI_def getCachedHealthy_def initial_def truthy_def endpoint_or_default_def
    attempts_def bases_def PIPED_APIS_def js_rem_def js_index_def probe_value_def
    concat_url_def ok_def enumerate_eq_zip upt_rec markHealthy_def markUnhealthy_def probes_sent_def Let_def
    try_block_def catch_block_def apiFetchJSON_def fetch_json_def

lemma try_500: "try_block net_500 ''/p'' cached_kavin =
   (Inl (ApiError 500),
    \<lparr>currentAPIIndex = 0, lastHealthyAPI = Some ''https://pipedapi.kavin.rocks'',
     sent = [(GET, ''https://pipedapi.kavin.rocks/p'')]\<rparr>)"
  by (simp add: eval_defs cached_kavin_def net_500_def)

lemma enumerate_map_snd:
  "enumerate n (map f xs) = map (\<lambda>p. (fst p, f (snd p))) (enumerate n xs)"
  by (induction xs arbitrary: n) simp_all

lemma find_map_option:
  "find P (map f xs) = map_option f (find (P \<circ> f) xs)"
  by (induction xs) simp_all

lemma attempts_rotation:
  assumes "valid_state s"
  shows "attempts net ep s =
     map (\<lambda>p. if responds (net (length (sent s) + fst p) HEAD (snd p @ ep)) then Some (snd p) else None)
       (enumerate 0 (rotate (nat (currentAPIIndex s)) PIPED_APIS))"
proof -
  from assms have c: "0 \<le> currentAPIIndex s" "currentAPIIndex s < 5"
    by (simp_all add: valid_state_def length_PIPED_APIS)
  show ?thesis
    by (simp add: attempts_def bases_rotate[OF c] enumerate_map_snd probe_value_responds
        concat_url_def case_prod_beta o_def)
qed

lemma probes_rotation:
  assumes "valid_state s"
  shows "probes_sent ep s = map (\<lambda>b. (HEAD, b @ ep)) (rotate (nat (currentAPIIndex s)) PIPED_APIS)"
proof -
  from assms have c: "0 \<le> currentAPIIndex s" "currentAPIIndex s < 5"
    by (simp_all add: valid_state_def length_PIPED_APIS)
  show ?thesis
    by (simp add: probes_sent_def bases_rotate[OF c] concat_url_def o_def)
qed

lemma find_truthy_rotation:
  assumes "valid_state s"
  shows "find truthy (attempts net ep s) =
     map_option (\<lambda>p. Some (snd p))
       (find (\<lambda>p. responds (net (length (sent s) + fst p) HEAD (snd p @ ep)))
          (enumerate 0 (rotate (nat (currentAPIIndex s)) PIPED_APIS)))"
proof -
  let ?rot = "enumerate 0 (rotate (nat (currentAPIIndex s)) PIPED_APIS)"
  let ?g = "\<lambda>p. if responds (net (length (sent s) + fst p) HEAD (snd p @ ep)) then Some (snd p) else None"
  let ?R = "\<lambda>p. responds (net (length (sent s) + fst p) HEAD (snd p @ ep))"
  have ne: "snd p \<noteq> []" if "p \<in> set ?rot" for p
  proof -
    from that have "snd p \<in> snd ` set ?rot" by (rule imageI)
    then have "snd p \<in> set (map snd ?rot)" by (simp only: set_map)
    then have "snd p \<in> set PIPED_APIS" by (simp only: map_snd_enumerate set_rotate)
    then show ?thesis by (rule PIPED_APIS_nonempty)
  qed
  have "find truthy (map ?g ?rot) = map_option ?g (find (truthy \<circ> ?g) ?rot)"
    by (rule find_map_option)
  also have "find (truthy \<circ> ?g) ?rot = find ?R ?rot"
    using ne by (intro find_cong) (auto simp: truthy_def)
  also have "map_option ?g (find ?R ?rot) = map_option (\<lambda>p. Some (snd p)) (find ?R ?rot)"
  proof (cases "find ?R ?rot")
    case None
    then show ?thesis by simp
  next
    case (Some p)
    then have "?R p" by (auto dest: find_is_member)
    with Some show ?thesis by simp
  qed
  finally show ?thesis by (simp only: attempts_rotation[OF assms])
qed

lemma valid_apiFetchJSON: "valid_state s \<Longrightarrow> valid_state (snd (apiFetchJSON net path s))"
proof -
  assume v: "valid_state s"
  let ?t = "try_block net path s"
  have v1: "valid_state (snd ?t)" by (rule valid_try_block[OF v])
  show ?thesis
  proof (cases "fst ?t")
    case (Inr d)
    then have "apiFetchJSON net path s = ?t" by (cases ?t) (simp add: apiFetchJSON_def)
    with v1 show ?thesis by simp
  next
    case (Inl e)
    then have a: "apiFetchJSON net path s = catch_block net path (snd ?t)"
      by (cases ?t) (simp add: apiFetchJSON_def)
    let ?c = "chooseAPI net (Some path) (markUnhealthy (snd ?t))"
    have "valid_state (snd ?c)"
      using valid_chooseAPI[OF valid_markUnhealthy[OF v1], of net "Some path" "fst ?c" "snd ?c"] by simp
    then show ?thesis
      unfolding a by (simp add: catch_block_unfold valid_fetch_json split: sum.splits)
  qed
qed

section \<open>The claims about rotation and failover\<close>

text \<open>
  Claim C1. Whenever the first attempt of \<open>apiFetchJSON\<close> fails, whether its request
  is rejected, answered with a status that is not ok, answered with a body that is
  not JSON, or never sent because no mirror could be resolved, the cached endpoint is
  cleared and the cursor advanced by one position (modulo the mirror count from every
  state the program can be in). \<open>chooseAPI\<close> is then called exactly once more; starting
  from the emptied cache it sends one round of probes. When it yields an endpoint, the
  request is sent exactly once more, to that endpoint. The outcome of this second
  attempt is the outcome of the call: a failure of its resolution or of its request
  goes to the caller, and nothing is sent after it. A call never sends more than two
  \<open>GET\<close> requests. (The last part of the statement spells out when a first attempt
  that has resolved an endpoint fails: by the outcome of its one request.)
\<close>

theorem apiFetchJSON_single_retry:
  assumes "try_block net path s = (Inl e, s1)"
  shows "lastHealthyAPI (markUnhealthy s1) = None
     \<and> currentAPIIndex (markUnhealthy s1) = js_rem (currentAPIIndex s1 + 1) 5
     \<and> (valid_state s \<longrightarrow> currentAPIIndex (markUnhealthy s1) = (currentAPIIndex s1 + 1) mod 5)
     \<and> sent (snd (chooseAPI net (Some path) (markUnhealthy s1)))
         = sent s1 @ probes_sent path (markUnhealthy s1)
     \<and> apiFetchJSON net path s =
         (case fst (chooseAPI net (Some path) (markUnhealthy s1)) of
            Inl e2 \<Rightarrow> (Inl e2, snd (chooseAPI net (Some path) (markUnhealthy s1)))
          | Inr base2 \<Rightarrow> fetch_json net (base2 @ path) (snd (chooseAPI net (Some path) (markUnhealthy s1))))
     \<and> sent (snd (apiFetchJSON net path s)) =
         sent s1 @ probes_sent path (markUnhealthy s1) @
           (case fst (chooseAPI net (Some path) (markUnhealthy s1)) of
              Inl e2 \<Rightarrow> []
            | Inr base2 \<Rightarrow> [(GET, base2 @ path)])
     \<and> fst (apiFetchJSON net path s) =
         (case fst (chooseAPI net (Some path) (markUnhealthy s1)) of
            Inl e2 \<Rightarrow> Inl e2
          | Inr base2 \<Rightarrow>
              (case net (length (sent s1) + 5) GET (base2 @ path) of
                 Rejected \<Rightarrow> Inl FetchRejected
               | Response st body \<Rightarrow>
                   (if ok st then (case body of None \<Rightarrow> Inl BodyNotJSON | Some d \<Rightarrow> Inr d)
                    else Inl (ApiError st))))
     \<and> count_verb GET (sent (snd (apiFetchJSON net path s))) \<le> count_verb GET (sent s) + 2
     \<and> (\<forall>base. fst (chooseAPI net (Some path) s) = Inr base \<longrightarrow>
           fst (try_block net path s) =
             (case net (length (sent (snd (chooseAPI net (Some path) s)))) GET (base @ path) of
                Rejected \<Rightarrow> Inl FetchRejected
              | Response st body \<Rightarrow>
                  (if ok st then (case body of None \<Rightarrow> Inl BodyNotJSON | Some d \<Rightarrow> Inr d)
                   else Inl (ApiError st))))"
proof -
  have a: "apiFetchJSON net path s = catch_block net path s1"
    using assms by (simp add: apiFetchJSON_def)
  have 1: "lastHealthyAPI (markUnhealthy s1) = None"
    by (simp add: markUnhealthy_def)
  have 2: "currentAPIIndex (markUnhealthy s1) = js_rem (currentAPIIndex s1 + 1) 5"
    by (simp add: markUnhealthy_def length_PIPED_APIS)
  have 3: "currentAPIIndex (markUnhealthy s1) = (currentAPIIndex s1 + 1) mod 5" if "valid_state s"
  proof -
    from valid_try_block[OF that, of net path] assms have "valid_state s1" by simp
    then show ?thesis by (intro cursor_markUnhealthy) (simp_all add: valid_state_def length_PIPED_APIS)
  qed
  have 4: "sent (snd (chooseAPI net (Some path) (markUnhealthy s1)))
         = sent s1 @ probes_sent path (markUnhealthy s1)"
    using chooseAPI_sent_uncached[OF getCachedHealthy_markUnhealthy, of net "Some path" s1]
    by (simp add: endpoint_or_default_def markUnhealthy_def)
  note 5 = catch_block_unfold[of net path s1, folded a]
  note 6 = catch_block_sent[of net path s1, folded a]
  note 7 = catch_block_result[of net path s1, folded a]
  note 8 = apiFetchJSON_GET_bound[of net path s]
  from 3 have v3: "valid_state s \<longrightarrow> currentAPIIndex (markUnhealthy s1) = (currentAPIIndex s1 + 1) mod 5"
    by blast
  have 9: "\<forall>base. fst (chooseAPI net (Some path) s) = Inr base \<longrightarrow>
           fst (try_block net path s) =
             (case net (length (sent (snd (chooseAPI net (Some path) s)))) GET (base @ path) of
                Rejected \<Rightarrow> Inl FetchRejected
              | Response st body \<Rightarrow>
                  (if ok st then (case body of None \<Rightarrow> Inl BodyNotJSON | Some d \<Rightarrow> Inr d)
                   else Inl (ApiError st)))"
    by (simp add: try_block_unfold fetch_json_result)
  show ?thesis
    by (rule conjI [OF 1 conjI [OF 2 conjI [OF v3 conjI [OF 4 conjI [OF 5 conjI [OF 6 conjI [OF 7
          conjI [OF 8 9]]]]]]]])
qed

theorem apiFetchJSON_single_retry_witness:
  "valid_state cached_kavin
   \<and> fst (try_block net_500 ''/p'' cached_kavin) = Inl (ApiError 500)
   \<and> currentAPIIndex (markUnhealthy (snd (try_block net_500 ''/p'' cached_kavin))) = 1
   \<and> fst (apiFetchJSON net_500 ''/p'' cached_kavin) = Inl (ApiError 500)
   \<and> sent (snd (apiFetchJSON net_500 ''/p'' cached_kavin)) =
        [(GET, ''https://pipedapi.kavin.rocks/p''),
         (HEAD, ''https://pipedapi.adminforge.de/p''),
         (HEAD, ''https://pipedapi.syncpundit.io/p''),
         (HEAD, ''https://pipedapi.nosebs.de/p''),
         (HEAD, ''https://pipedapi.tokhmi.xyz/p''),
         (HEAD, ''https://pipedapi.kavin.rocks/p''),
         (GET, ''https://pipedapi.adminforge.de/p'')]"
proof -
  let ?s1 = "\<lparr>currentAPIIndex = 0, lastHealthyAPI = Some ''https://pipedapi.kavin.rocks'',
     sent = [(GET, ''https://pipedapi.kavin.rocks/p'')]\<rparr>"
  note t = apiFetchJSON_single_retry [OF try_500]
  have c: "fst (chooseAPI net_500 (Some ''/p'') (markUnhealthy ?s1)) = Inr ''https://pipedapi.adminforge.de''"
    by (simp add: eval_defs net_500_def)
  have p: "probes_sent ''/p'' (markUnhealthy ?s1) =
        [(HEAD, ''https://pipedapi.adminforge.de/p''),
         (HEAD, ''https://pipedapi.syncpundit.io/p''),
         (HEAD, ''https://pipedapi.nosebs.de/p''),
         (HEAD, ''https://pipedapi.tokhmi.xyz/p''),
         (HEAD, ''https://pipedapi.kavin.rocks/p'')]"
    by (simp add: eval_defs)
  have n: "net_500 (length (sent ?s1) + 5) GET (''https://pipedapi.adminforge.de'' @ ''/p'') = Response 500 None"
    by (simp add: net_500_def)
  have 1: "fst (try_block net_500 ''/p'' cached_kavin) = Inl (ApiError 500)"
    by (simp add: try_500)
  have v: "valid_state cached_kavin"
    unfolding cached_kavin_def by (rule valid_markHealthy) (simp add: PIPED_APIS_def)
  have "currentAPIIndex (markUnhealthy ?s1) = (currentAPIIndex ?s1 + 1) mod 5"
    by (rule t [THEN conjunct2, THEN conjunct2, THEN conjunct1, THEN mp, OF v])
  then have k: "currentAPIIndex (markUnhealthy (snd (try_block net_500 ''/p'' cached_kavin))) = 1"
    by (simp add: try_500)
  have "fst (apiFetchJSON net_500 ''/p'' cached_kavin) =
         (case Inr ''https://pipedapi.adminforge.de'' of
            Inl e2 \<Rightarrow> Inl e2
          | Inr base2 \<Rightarrow>
              (case net_500 (length (sent ?s1) + 5) GET (base2 @ ''/p'') of
                 Rejected \<Rightarrow> Inl FetchRejected
               | Response st body \<Rightarrow>
                   (if ok st then (case body of None \<Rightarrow> Inl BodyNotJSON | Some d \<Rightarrow> Inr d)
                    else Inl (ApiError st))))"
    using t [THEN conjunct2, THEN conjunct2, THEN conjunct2, THEN conjunct2, THEN conjunct2,
        THEN conjunct2, THEN conjunct1] by (simp only: c)
  then have 2: "fst (apiFetchJSON net_500 ''/p'' cached_kavin) = Inl (ApiError 500)"
    by (simp add: net_500_def ok_def)
  have "sent (snd (apiFetchJSON net_500 ''/p'' cached_kavin)) =
         sent ?s1 @ probes_sent ''/p'' (markUnhealthy ?s1) @
           (case (Inr ''https://pipedapi.adminforge.de'' :: error + string) of
              Inl e2 \<Rightarrow> []
            | Inr base2 \<Rightarrow> [(GET, base2 @ ''/p'')])"
    using t [THEN conjunct2, THEN conjunct2, THEN conjunct2, THEN conjunct2, THEN conjunct2,
        THEN conjunct1] by (simp only: c)
  then have 3: "sent (snd (apiFetchJSON net_500 ''/p'' cached_kavin)) =
        [(GET, ''https://pipedapi.kavin.rocks/p''),
         (HEAD, ''https://pipedapi.adminforge.de/p''),
         (HEAD, ''https://pipedapi.syncpundit.io/p''),
         (HEAD, ''https://pipedapi.nosebs.de/p''),
         (HEAD, ''https://pipedapi.tokhmi.xyz/p''),
         (HEAD, ''https://pipedapi.kavin.rocks/p''),
         (GET, ''https://pipedapi.adminforge.de/p'')]"
    by (simp add: p)
  show ?thesis by (rule conjI [OF v conjI [OF 1 conjI [OF k conjI [OF 2 3]]]])
qed

text \<open>
  Claim C3. When no endpoint is cached and the probe of every configured mirror fails
  (it is rejected, or answered with a status that is neither ok nor 404),
  \<open>chooseAPI\<close> fails with the error \<open>AllOffline\<close>; the cached endpoint and the
  cursor are what they were before the call, so the cache is still empty and no mirror
  has been marked healthy. Only the history of sent requests has grown, by the probes.
\<close>

theorem chooseAPI_all_offline:
  assumes "getCachedHealthy s = None"
    and "\<forall>n. \<forall>b\<in>set PIPED_APIS. \<not> responds (net n HEAD (b @ endpoint))"
  shows "chooseAPI net (Some endpoint) s = (Inl AllOffline, s\<lparr>sent := sent s @ probes_sent endpoint s\<rparr>)
         \<and> lastHealthyAPI (snd (chooseAPI net (Some endpoint) s)) = lastHealthyAPI s
         \<and> currentAPIIndex (snd (chooseAPI net (Some endpoint) s)) = currentAPIIndex s
         \<and> getCachedHealthy (snd (chooseAPI net (Some endpoint) s)) = None"
proof -
  have r: "chooseAPI net (Some endpoint) s = (Inl AllOffline, s\<lparr>sent := sent s @ probes_sent endpoint s\<rparr>)"
    using assms(1) attempts_all_fail[where net=net and endpoint=endpoint and s=s, OF assms(2)]
    by (simp add: chooseAPI_uncached endpoint_or_default_def)
  moreover have "getCachedHealthy (s\<lparr>sent := sent s @ probes_sent endpoint s\<rparr>) = None"
    using assms(1) by (simp add: getCachedHealthy_def split: if_splits)
  ultimately show ?thesis by simp
qed

theorem chooseAPI_all_offline_witness:
  "getCachedHealthy initial = None
   \<and> (\<forall>n. list_all (\<lambda>b. \<not> responds (net_down n HEAD (b @ ''/api/v1/streams/dQw4w9WgXcQ''))) PIPED_APIS)
   \<and> fst (chooseAPI net_down (Some ''/api/v1/streams/dQw4w9WgXcQ'') initial) = Inl AllOffline
   \<and> lastHealthyAPI (snd (chooseAPI net_down (Some ''/api/v1/streams/dQw4w9WgXcQ'') initial)) = None
   \<and> currentAPIIndex (snd (chooseAPI net_down (Some ''/api/v1/streams/dQw4w9WgXcQ'') initial)) = 0"
proof -
  have c: "getCachedHealthy initial = None"
    by (simp add: getCachedHealthy_def initial_def truthy_def)
  have d: "\<forall>n. \<forall>b\<in>set PIPED_APIS. \<not> responds (net_down n HEAD (b @ ''/api/v1/streams/dQw4w9WgXcQ''))"
    by (simp add: net_down_def responds_def ok_def)
  have i: "lastHealthyAPI initial = None" "currentAPIIndex initial = 0"
    by (simp_all add: initial_def)
  note t = chooseAPI_all_offline [where net=net_down and s=initial
      and endpoint="''/api/v1/streams/dQw4w9WgXcQ''", OF c d]
  have 1: "fst (chooseAPI net_down (Some ''/api/v1/streams/dQw4w9WgXcQ'') initial) = Inl AllOffline"
    by (simp only: t [THEN conjunct1] fst_conv)
  have 2: "lastHealthyAPI (snd (chooseAPI net_down (Some ''/api/v1/streams/dQw4w9WgXcQ'') initial)) = None"
    by (simp only: t [THEN conjunct2, THEN conjunct1] i)
  have 3: "currentAPIIndex (snd (chooseAPI net_down (Some ''/api/v1/streams/dQw4w9WgXcQ'') initial)) = 0"
    by (simp only: t [THEN conjunct2, THEN conjunct2, THEN conjunct1] i)
  from d have d': "\<forall>n. list_all (\<lambda>b. \<not> responds (net_down n HEAD (b @ ''/api/v1/streams/dQw4w9WgXcQ''))) PIPED_APIS"
    by (simp only: list_all_iff)
  show ?thesis by (rule conjI [OF c conjI [OF d' conjI [OF 1 conjI [OF 2 3]]]])
qed

text \<open>
  Claim C10. Whenever \<open>chooseAPI\<close> succeeds after a probe round (no endpoint was cached
  when it was called), the returned mirror is one of the configured mirrors, it is the
  cached endpoint afterwards, and the cursor is its position in the mirror list, wherever
  the probe round started. The next reset of the cache therefore moves the cursor to the
  position right after that mirror, wrapping around at the end of the list.
\<close>

theorem chooseAPI_sets_cursor:
  assumes "getCachedHealthy s = None" and "chooseAPI net ep s = (Inr h, s')"
  shows "h \<in> set PIPED_APIS
         \<and> lastHealthyAPI s' = Some h
         \<and> currentAPIIndex s' = indexOf PIPED_APIS h
         \<and> js_index PIPED_APIS (currentAPIIndex s') = Some h
         \<and> currentAPIIndex (markUnhealthy s') = (indexOf PIPED_APIS h + 1) mod 5
         \<and> js_index PIPED_APIS (currentAPIIndex (markUnhealthy s'))
             = Some (PIPED_APIS ! ((nat (indexOf PIPED_APIS h) + 1) mod 5))"
proof -
  from chooseAPI_success[OF assms(2) assms(1)]
  have h: "h \<in> set PIPED_APIS"
    and s': "s' = markHealthy h (s\<lparr>sent := sent s @ probes_sent (endpoint_or_default ep) s\<rparr>)"
    by simp_all
  have 1: "lastHealthyAPI s' = Some h" "currentAPIIndex s' = indexOf PIPED_APIS h"
    by (simp_all add: s' markHealthy_def)
  have 2: "js_index PIPED_APIS (currentAPIIndex s') = Some h"
    using js_index_indexOf[OF h] 1 by simp
  have 3: "currentAPIIndex (markUnhealthy s') = (indexOf PIPED_APIS h + 1) mod 5"
    "js_index PIPED_APIS (currentAPIIndex (markUnhealthy s'))
             = Some (PIPED_APIS ! ((nat (indexOf PIPED_APIS h) + 1) mod 5))"
    unfolding s'
    by (rule markUnhealthy_after_markHealthy[OF h, THEN conjunct1],
        rule markUnhealthy_after_markHealthy[OF h, THEN conjunct2])
  from h 1 2 3 show ?thesis by simp
qed

theorem chooseAPI_sets_cursor_witness:
  "getCachedHealthy initial = None
   \<and> fst (chooseAPI (net_third ''/p'') (Some ''/p'') initial) = Inr ''https://pipedapi.syncpundit.io''
   \<and> currentAPIIndex initial = 0
   \<and> currentAPIIndex (snd (chooseAPI (net_third ''/p'') (Some ''/p'') initial)) = 2
   \<and> currentAPIIndex (markUnhealthy (snd (chooseAPI (net_third ''/p'') (Some ''/p'') initial))) = 3
   \<and> js_index PIPED_APIS (currentAPIIndex (markUnhealthy (snd (chooseAPI (net_third ''/p'') (Some ''/p'') initial))))
       = Some ''https://pipedapi.nosebs.de''"
proof -
  let ?s' = "snd (chooseAPI (net_third ''/p'') (Some ''/p'') initial)"
  have e: "chooseAPI (net_third ''/p'') (Some ''/p'') initial = (Inr ''https://pipedapi.syncpundit.io'', ?s')"
    by (simp add: chooseAPI_net_third)
  note t = chooseAPI_sets_cursor [OF getCachedHealthy_initial e]
  have ix: "indexOf PIPED_APIS ''https://pipedapi.syncpundit.io'' = 2"
    by (simp add: PIPED_APIS_def)
  have 1: "fst (chooseAPI (net_third ''/p'') (Some ''/p'') initial) = Inr ''https://pipedapi.syncpundit.io''"
    by (simp add: chooseAPI_net_third)
  have 0: "currentAPIIndex initial = 0" by (simp add: initial_def)
  have 2: "currentAPIIndex ?s' = 2"
    using t [THEN conjunct2, THEN conjunct2, THEN conjunct1] by (simp only: ix)
  have 3: "currentAPIIndex (markUnhealthy ?s') = 3"
    using t [THEN conjunct2, THEN conjunct2, THEN conjunct2, THEN conjunct2, THEN conjunct1]
    by (simp add: ix)
  have 4: "js_index PIPED_APIS (currentAPIIndex (markUnhealthy ?s')) = Some ''https://pipedapi.nosebs.de''"
    using t [THEN conjunct2, THEN conjunct2, THEN conjunct2, THEN conjunct2, THEN conjunct2]
    by (simp add: ix PIPED_APIS_def)
  show ?thesis
    by (rule conjI [OF getCachedHealthy_initial conjI [OF 1 conjI [OF 0 conjI [OF 2 conjI [OF 3 4]]]]])
qed

text \<open>
  Claim C4. The health cache as a state machine. After a configured mirror \<open>x\<close> has
  been marked healthy, also at the end of a successful \<open>chooseAPI\<close>, the cache reads
  \<open>x\<close>, and any run of further \<open>chooseAPI\<close> calls returns \<open>x\<close> each time and leaves
  the state as it is, whatever the network does: only the reset changes the cache.
  After the reset the cache reads nothing, and from a cursor that is a position of the
  mirror list the cursor has advanced by one position modulo the mirror count: it
  designates another mirror, and the next probe round starts with that mirror.
\<close>

theorem health_cache_state_machine:
  "(x \<in> set PIPED_APIS \<longrightarrow>
      getCachedHealthy (markHealthy x s) = Some x
      \<and> chooseAPI_calls net eps (markHealthy x s) = (map (\<lambda>ep. Inr x) eps, markHealthy x s))
   \<and> (chooseAPI net ep s = (Inr x, s') \<longrightarrow>
      getCachedHealthy s' = Some x
      \<and> chooseAPI_calls net' eps s' = (map (\<lambda>ep. Inr x) eps, s'))
   \<and> getCachedHealthy (markUnhealthy s) = None
   \<and> lastHealthyAPI (markUnhealthy s) = None
   \<and> (0 \<le> currentAPIIndex s \<and> currentAPIIndex s < 5 \<longrightarrow>
      currentAPIIndex (markUnhealthy s) = (currentAPIIndex s + 1) mod 5
      \<and> js_index PIPED_APIS (currentAPIIndex (markUnhealthy s)) \<noteq> js_index PIPED_APIS (currentAPIIndex s)
      \<and> hd (probes_sent e (markUnhealthy s))
          = (HEAD, PIPED_APIS ! nat ((currentAPIIndex s + 1) mod 5) @ e))"
proof -
  have a: "getCachedHealthy (markHealthy x s) = Some x
      \<and> chooseAPI_calls net eps (markHealthy x s) = (map (\<lambda>ep. Inr x) eps, markHealthy x s)"
    if "x \<in> set PIPED_APIS"
    using getCachedHealthy_markHealthy[OF that] by (simp add: chooseAPI_calls_cached)
  have b: "getCachedHealthy s' = Some x \<and> chooseAPI_calls net' eps s' = (map (\<lambda>ep. Inr x) eps, s')"
    if "chooseAPI net ep s = (Inr x, s')"
    using chooseAPI_caches[OF that] by (simp add: chooseAPI_calls_cached)
  have c: "lastHealthyAPI (markUnhealthy s) = None" by (simp add: markUnhealthy_def)
  from a b c getCachedHealthy_markUnhealthy markUnhealthy_moves show ?thesis by blast
qed

theorem health_cache_state_machine_witness:
  "''https://pipedapi.adminforge.de'' \<in> set PIPED_APIS
   \<and> getCachedHealthy (markHealthy ''https://pipedapi.adminforge.de'' initial)
       = Some ''https://pipedapi.adminforge.de''
   \<and> chooseAPI_calls net_down [Some ''/a'', None, Some ''/b''] (markHealthy ''https://pipedapi.adminforge.de'' initial)
       = ([Inr ''https://pipedapi.adminforge.de'', Inr ''https://pipedapi.adminforge.de'',
           Inr ''https://pipedapi.adminforge.de''],
          markHealthy ''https://pipedapi.adminforge.de'' initial)
   \<and> currentAPIIndex (markHealthy ''https://pipedapi.adminforge.de'' initial) = 1
   \<and> getCachedHealthy (markUnhealthy (markHealthy ''https://pipedapi.adminforge.de'' initial)) = None
   \<and> currentAPIIndex (markUnhealthy (markHealthy ''https://pipedapi.adminforge.de'' initial)) = 2
   \<and> fst (chooseAPI (net_third ''/p'') (Some ''/p'') initial) = Inr ''https://pipedapi.syncpundit.io''
   \<and> getCachedHealthy (snd (chooseAPI (net_third ''/p'') (Some ''/p'') initial))
       = Some ''https://pipedapi.syncpundit.io''
   \<and> fst (chooseAPI_calls net_down [Some ''/a'', None] (snd (chooseAPI (net_third ''/p'') (Some ''/p'') initial)))
       = [Inr ''https://pipedapi.syncpundit.io'', Inr ''https://pipedapi.syncpundit.io'']"
proof -
  let ?x = "''https://pipedapi.adminforge.de''"
  let ?s = "markHealthy ?x initial"
  have m: "?x \<in> set PIPED_APIS" by (simp add: PIPED_APIS_def)
  have c: "currentAPIIndex ?s = 1" by (simp add: markHealthy_def PIPED_APIS_def)
  then have r: "0 \<le> currentAPIIndex ?s \<and> currentAPIIndex ?s < 5" by simp
  note t1 = health_cache_state_machine [where x="?x" and s=initial and net=net_down
      and eps="[Some ''/a'', None, Some ''/b'']", THEN conjunct1, THEN mp, OF m]
  note t2 = health_cache_state_machine [where s="?s", THEN conjunct2, THEN conjunct2]
  have 1: "getCachedHealthy ?s = Some ?x" by (rule t1 [THEN conjunct1])
  have 2: "chooseAPI_calls net_down [Some ''/a'', None, Some ''/b''] ?s = ([Inr ?x, Inr ?x, Inr ?x], ?s)"
    using t1 [THEN conjunct2] by simp
  have 3: "getCachedHealthy (markUnhealthy ?s) = None" by (rule t2 [THEN conjunct1])
  have "currentAPIIndex (markUnhealthy ?s) = (currentAPIIndex ?s + 1) mod 5"
    by (rule t2 [THEN conjunct2, THEN conjunct2, THEN mp, OF r, THEN conjunct1])
  then have 4: "currentAPIIndex (markUnhealthy ?s) = 2" by (simp add: c)
  let ?s' = "snd (chooseAPI (net_third ''/p'') (Some ''/p'') initial)"
  have e: "chooseAPI (net_third ''/p'') (Some ''/p'') initial = (Inr ''https://pipedapi.syncpundit.io'', ?s')"
    by (simp add: chooseAPI_net_third)
  note t3 = health_cache_state_machine [where net="net_third ''/p''" and ep="Some ''/p''" and s=initial
      and x="''https://pipedapi.syncpundit.io''" and s'="?s'" and net'=net_down and eps="[Some ''/a'', None]",
      THEN conjunct2, THEN conjunct1, THEN mp, OF e]
  have 5: "fst (chooseAPI (net_third ''/p'') (Some ''/p'') initial) = Inr ''https://pipedapi.syncpundit.io''"
    by (simp add: chooseAPI_net_third)
  have 6: "getCachedHealthy ?s' = Some ''https://pipedapi.syncpundit.io''" by (rule t3 [THEN conjunct1])
  have 7: "fst (chooseAPI_calls net_down [Some ''/a'', None] ?s')
       = [Inr ''https://pipedapi.syncpundit.io'', Inr ''https://pipedapi.syncpundit.io'']"
    using t3 [THEN conjunct2] by simp
  show ?thesis
    by (rule conjI [OF m conjI [OF 1 conjI [OF 2 conjI [OF c conjI [OF 3 conjI [OF 4
          conjI [OF 5 conjI [OF 6 7]]]]]]]])
qed

text \<open>
  Claim C5, on the order in which the probes are ranked. The claim reads: with no
  endpoint cached, \<open>chooseAPI\<close> probes all mirrors, waits for the whole batch, lets no
  failed probe abort it, and returns and caches the first healthy result in completion
  order, not in list order. The last part fails. When every mirror answers its probe and
  the probes settle from the last to the first, the first healthy result by completion
  is the last mirror of the list, and \<open>chooseAPI\<close> returns the first one.
\<close>

theorem chooseAPI_completion_order_counterexample:
  "fst (chooseAPI net_up (Some ''/p'') initial) = Inr ''https://pipedapi.kavin.rocks''
   \<and> first_healthy_by_completion late_first (attempts net_up ''/p'' initial)
       = Some ''https://pipedapi.tokhmi.xyz''"
proof -
  have a: "attempts net_up ''/p'' initial = map Some PIPED_APIS"
    by (simp add: eval_defs net_up_def)
  have 1: "fst (chooseAPI net_up (Some ''/p'') initial) = Inr ''https://pipedapi.kavin.rocks''"
    by (simp add: eval_defs net_up_def)
  have 2: "first_healthy_by_completion late_first (map Some PIPED_APIS) = Some ''https://pipedapi.tokhmi.xyz''"
    by (simp add: first_healthy_by_completion_def settle_order_def late_first_def PIPED_APIS_def
        enumerate_eq_zip upt_rec truthy_def)
  show ?thesis unfolding a by (rule conjI [OF 1 2])
qed

text \<open>
  Claim C5 as amended. With no endpoint cached, \<open>chooseAPI\<close> sends one probe to every
  configured mirror, in the order of the list rotated to start at the cursor, whatever
  any of the probes comes to. It returns the first mirror, in that same order, whose
  probe is answered with an ok status or with 404, and caches it; a rejected or failed
  probe only makes the search go on to the next mirror, and when none responds the
  result is the error \<open>AllOffline\<close>. The order in which the probes settle plays no part:
  it is not an input of \<open>chooseAPI\<close>.
\<close>

theorem chooseAPI_first_healthy_in_rotation:
  assumes "valid_state s" and "getCachedHealthy s = None"
  shows "sent (snd (chooseAPI net (Some ep) s))
           = sent s @ map (\<lambda>b. (HEAD, b @ ep)) (rotate (nat (currentAPIIndex s)) PIPED_APIS)
     \<and> fst (chooseAPI net (Some ep) s) =
         (case find (\<lambda>p. responds (net (length (sent s) + fst p) HEAD (snd p @ ep)))
                 (enumerate 0 (rotate (nat (currentAPIIndex s)) PIPED_APIS)) of
            None \<Rightarrow> Inl AllOffline
          | Some p \<Rightarrow> Inr (snd p))
     \<and> (\<forall>b. fst (chooseAPI net (Some ep) s) = Inr b \<longrightarrow>
            getCachedHealthy (snd (chooseAPI net (Some ep) s)) = Some b)"
proof -
  have 1: "sent (snd (chooseAPI net (Some ep) s))
           = sent s @ map (\<lambda>b. (HEAD, b @ ep)) (rotate (nat (currentAPIIndex s)) PIPED_APIS)"
    using chooseAPI_sent_uncached[OF assms(2), of net "Some ep"]
    by (simp add: endpoint_or_default_def probes_rotation[OF assms(1)])
  have 2: "fst (chooseAPI net (Some ep) s) =
         (case find (\<lambda>p. responds (net (length (sent s) + fst p) HEAD (snd p @ ep)))
                 (enumerate 0 (rotate (nat (currentAPIIndex s)) PIPED_APIS)) of
            None \<Rightarrow> Inl AllOffline
          | Some p \<Rightarrow> Inr (snd p))"
    by (simp add: chooseAPI_uncached[OF assms(2)] endpoint_or_default_def
        find_truthy_rotation[OF assms(1)] split: option.splits)
  have 3: "\<forall>b. fst (chooseAPI net (Some ep) s) = Inr b \<longrightarrow>
            getCachedHealthy (snd (chooseAPI net (Some ep) s)) = Some b"
    using chooseAPI_caches[of net "Some ep" s] by (metis prod.collapse)
  show ?thesis by (rule conjI [OF 1 conjI [OF 2 3]])
qed

theorem chooseAPI_first_healthy_in_rotation_witness:
  "valid_state initial \<and> getCachedHealthy initial = None
   \<and> sent (snd (chooseAPI (net_third ''/p'') (Some ''/p'') initial))
       = [(HEAD, ''https://pipedapi.kavin.rocks/p''),
          (HEAD, ''https://pipedapi.adminforge.de/p''),
          (HEAD, ''https://pipedapi.syncpundit.io/p''),
          (HEAD, ''https://pipedapi.nosebs.de/p''),
          (HEAD, ''https://pipedapi.tokhmi.xyz/p'')]
   \<and> fst (chooseAPI (net_third ''/p'') (Some ''/p'') initial) = Inr ''https://pipedapi.syncpundit.io''
   \<and> getCachedHealthy (snd (chooseAPI (net_third ''/p'') (Some ''/p'') initial))
       = Some ''https://pipedapi.syncpundit.io''"
proof -
  note t = chooseAPI_first_healthy_in_rotation [OF valid_initial getCachedHealthy_initial,
      where net="net_third ''/p''" and ep="''/p''"]
  have 1: "sent (snd (chooseAPI (net_third ''/p'') (Some ''/p'') initial))
       = [(HEAD, ''https://pipedapi.kavin.rocks/p''),
          (HEAD, ''https://pipedapi.adminforge.de/p''),
          (HEAD, ''https://pipedapi.syncpundit.io/p''),
          (HEAD, ''https://pipedapi.nosebs.de/p''),
          (HEAD, ''https://pipedapi.tokhmi.xyz/p'')]"
    using t [THEN conjunct1] by (simp add: initial_def PIPED_APIS_def)
  have f: "(case find (\<lambda>p. responds (net_third ''/p'' (length (sent initial) + fst p) HEAD (snd p @ ''/p'')))
                 (enumerate 0 (rotate (nat (currentAPIIndex initial)) PIPED_APIS)) of
            None \<Rightarrow> Inl AllOffline
          | Some p \<Rightarrow> Inr (snd p)) = Inr ''https://pipedapi.syncpundit.io''"
    by (simp add: initial_def PIPED_APIS_def enumerate_eq_zip upt_rec responds_def net_third_def ok_def)
  have 2: "fst (chooseAPI (net_third ''/p'') (Some ''/p'') initial) = Inr ''https://pipedapi.syncpundit.io''"
    using t [THEN conjunct2, THEN conjunct1] by (simp only: f)
  have 3: "getCachedHealthy (snd (chooseAPI (net_third ''/p'') (Some ''/p'') initial))
       = Some ''https://pipedapi.syncpundit.io''"
    by (rule t [THEN conjunct2, THEN conjunct2, THEN spec, THEN mp, OF 2])
  show ?thesis
    by (rule conjI [OF valid_initial conjI [OF getCachedHealthy_initial conjI [OF 1 conjI [OF 2 3]]]])
qed

section \<open>The claims about the identifier extraction\<close>




text \<open>
  Claim C7, on texts that do not parse. The claim reads: when URL parsing fails or
  yields no identifier, \<open>getVideoId\<close> falls back to a scan of the raw text with the
  pattern and returns the captured identifier when one is present. It fails for a text
  on which the constructor throws: \<^verbatim>\<open>see https://youtu.be/abcdef\<close> does not start with a
  scheme, the pattern captures \<^verbatim>\<open>abcdef\<close> in it, and \<open>getVideoId\<close> returns nothing. The
  scan is inside the \<^verbatim>\<open>try\<close> block, after the constructor, and the \<^verbatim>\<open>catch\<close> block
  returns \<^verbatim>\<open>null\<close>.
\<close>

theorem getVideoId_parse_failure_counterexample:
  "URL_model ''see https://youtu.be/abcdef'' = Failure
   \<and> match_YT_RE ''see https://youtu.be/abcdef'' = Some ''abcdef''
   \<and> getVideoId fragment_parser ''see https://youtu.be/abcdef'' = Inr None"
  by code_simp

text \<open>
  Claim C7 as amended. When the constructor throws, \<open>getVideoId\<close> returns nothing and
  scans nothing. When the text parses and yields no identifier (the host does not contain
  the short-link domain and the query has no non-empty parameter \<^verbatim>\<open>v\<close>), \<open>getVideoId\<close>
  returns what the scan of the raw text with the pattern returns. The scan returns an
  identifier exactly when the text holds, somewhere, a long-form watch prefix or a
  short-link prefix followed by at least six characters of \<^verbatim>\<open>A-Z a-z 0-9 _ -\<close>; the
  identifier returned has at least six such characters, stands right after such a prefix
  and extends to the first character that is not of that kind.
\<close>

theorem getVideoId_regex_fallback:
  "(new_URL text = None \<longrightarrow> getVideoId new_URL text = Inr None)
   \<and> (new_URL text = Some u \<and> \<not> includes_str (hostname u) ''youtu.be''
        \<and> \<not> truthy (params_get (searchParams u) ''v'') \<longrightarrow>
      getVideoId new_URL text = Inr (match_YT_RE text))
   \<and> (match_YT_RE text = Some m \<longrightarrow>
      6 \<le> length m \<and> list_all is_id_char m
      \<and> (\<exists>pre pf rest. yt_prefix pf \<and> text = pre @ pf @ m @ rest
            \<and> (rest = [] \<or> \<not> is_id_char (hd rest))))
   \<and> ((\<exists>pre pf m' rest. yt_prefix pf \<and> 6 \<le> length m' \<and> list_all is_id_char m'
          \<and> text = pre @ pf @ m' @ rest)
        \<longrightarrow> match_YT_RE text \<noteq> None)"
proof -
  have 1: "new_URL text = None \<longrightarrow> getVideoId new_URL text = Inr None"
    by (simp add: getVideoId_throw)
  have 2: "new_URL text = Some u \<and> \<not> includes_str (hostname u) ''youtu.be''
        \<and> \<not> truthy (params_get (searchParams u) ''v'') \<longrightarrow>
      getVideoId new_URL text = Inr (match_YT_RE text)"
    by (simp add: getVideoId_scan)
  show ?thesis
    by (rule conjI [OF 1 conjI [OF 2 match_YT_RE_shape]])
qed

theorem getVideoId_regex_fallback_witness:
  "fragment_parser ''https://example.com/redirect?u=https://youtu.be/abcdef''
     = Some \<lparr>hostname = ''example.com'', pathname = ''/redirect'',
              searchParams = [(''u'', ''https://youtu.be/abcdef'')]\<rparr>
   \<and> getVideoId fragment_parser ''https://example.com/redirect?u=https://youtu.be/abcdef''
       = Inr (Some ''abcdef'')
   \<and> fragment_parser ''see https://youtu.be/abcdef'' = None
   \<and> getVideoId fragment_parser ''see https://youtu.be/abcdef'' = Inr None
   \<and> yt_prefix ''HTTP://WWW.YouTube.com/watch?v=''
   \<and> match_YT_RE (''watch '' @ ''HTTP://WWW.YouTube.com/watch?v='' @ ''dQw4w9WgXcQ'' @ ''&t=1'') \<noteq> None
   \<and> match_YT_RE ''https://example.com/redirect?u=https://youtu.be/abcde'' = None"
proof -
  let ?t = "''https://example.com/redirect?u=https://youtu.be/abcdef''"
  let ?u = "\<lparr>hostname = ''example.com'', pathname = ''/redirect'',
              searchParams = [(''u'', ''https://youtu.be/abcdef'')]\<rparr>"
  have p: "fragment_parser ?t = Some ?u" by code_simp
  have c: "\<not> includes_str (hostname ?u) ''youtu.be'' \<and> \<not> truthy (params_get (searchParams ?u) ''v'')"
    by (simp add: truthy_def)
  have m: "match_YT_RE ?t = Some ''abcdef''" by code_simp
  have "getVideoId fragment_parser ?t = Inr (match_YT_RE ?t)"
    by (rule getVideoId_regex_fallback [of fragment_parser ?t ?u, THEN conjunct2, THEN conjunct1, THEN mp,
          OF conjI [OF p c]])
  then have 1: "getVideoId fragment_parser ?t = Inr (Some ''abcdef'')" by (simp only: m)
  have f: "fragment_parser ''see https://youtu.be/abcdef'' = None" by code_simp
  have 2: "getVideoId fragment_parser ''see https://youtu.be/abcdef'' = Inr None"
    by (rule getVideoId_regex_fallback [of fragment_parser "''see https://youtu.be/abcdef''",
          THEN conjunct1, THEN mp, OF f])
  have y: "yt_prefix ''HTTP://WWW.YouTube.com/watch?v=''" by code_simp
  have i: "list_all is_id_char ''dQw4w9WgXcQ''" by code_simp
  have "\<exists>pre pf m' rest. yt_prefix pf \<and> 6 \<le> length m' \<and> list_all is_id_char m'
          \<and> ''watch '' @ ''HTTP://WWW.YouTube.com/watch?v='' @ ''dQw4w9WgXcQ'' @ ''&t=1'' = pre @ pf @ m' @ rest"
    using y i by (intro exI[of _ "''watch ''"] exI[of _ "''HTTP://WWW.YouTube.com/watch?v=''"]
        exI[of _ "''dQw4w9WgXcQ''"] exI[of _ "''&t=1''"]) simp
  then have 3: "match_YT_RE (''watch '' @ ''HTTP://WWW.YouTube.com/watch?v='' @ ''dQw4w9WgXcQ'' @ ''&t=1'') \<noteq> None"
    by (rule getVideoId_regex_fallback [THEN conjunct2, THEN conjunct2, THEN conjunct2, THEN mp])
  have 4: "match_YT_RE ''https://example.com/redirect?u=https://youtu.be/abcde'' = None" by code_simp
  show ?thesis by (rule conjI [OF p conjI [OF 1 conjI [OF f conjI [OF 2 conjI [OF y conjI [OF 3 4]]]]]])
qed



end
